theory Spec2Isabelle
  imports Complex_Main "HOL-Library.Multiset"
begin

section \<open>Sentence permutation and masked-sentence batches (fairseq/data)\<close>

text \<open>
  A shallow embedding of \<^verbatim>\<open>sents_perm_and_predict_mask_after_shff_dataset.py\<close>.
  Token ids and Python integers are \<open>int\<close>, list positions and lengths are \<open>nat\<close>,
  a 2-D tensor is the list of its rows, and every exception of the source is a value
  \<open>Inl e\<close>. Probabilities and ratios are Python floats: a finite binary64 number is
  represented by the rational it denotes, and an operation on floats rounds its exact
  result to binary64 (\<open>float_round\<close> below).
\<close>

datatype error =
  AssertionError | IndexError | ValueError | KeyError | TypeError | NameError | OverflowError

subsection \<open>split_list\<close>

text \<open>
  The loop of \<^verbatim>\<open>split_list\<close>: \<open>res\<close> and \<open>sublist\<close> are the two accumulators of the
  source; the test \<^verbatim>\<open>len(sublist) > 0\<close> inside the loop is kept although the append
  before it makes it true.
\<close>

fun split_list_loop :: "int list \<Rightarrow> int \<Rightarrow> int list list \<Rightarrow> int list \<Rightarrow> int list list \<times> int list" where
  "split_list_loop [] key res sublist = (res, sublist)"
| "split_list_loop (v # lst) key res sublist =
     (let sublist' = sublist @ [v] in
      if v = key
      then split_list_loop lst key (if length sublist' > 0 then res @ [sublist'] else res) []
      else split_list_loop lst key res sublist')"

definition split_list :: "int list \<Rightarrow> int \<Rightarrow> int list list" where
  "split_list lst key =
     (let (res, sublist) = split_list_loop lst key [] []
      in if length sublist > 0 then res @ [sublist] else res)"

subsection \<open>Python and numpy operations used by the source\<close>

text \<open>
  \<open>py_int\<close> is \<^verbatim>\<open>int(x)\<close> on a number (truncation towards zero) and \<open>py_take k xs\<close> is
  the slice \<^verbatim>\<open>xs[0:k]\<close> (\<^verbatim>\<open>xs[:k]\<close>) for a Python integer \<open>k\<close>: a negative \<open>k\<close> counts
  from the end.
\<close>

definition py_int :: "rat \<Rightarrow> int" where
  "py_int r = (if r < 0 then - \<lfloor>- r\<rfloor> else \<lfloor>r\<rfloor>)"

definition py_take :: "int \<Rightarrow> 'a list \<Rightarrow> 'a list" where
  "py_take k xs = (if 0 \<le> k then take (nat k) xs else take (length xs - nat (- k)) xs)"

text \<open>
  Binary64 arithmetic. \<open>float_exponent x\<close> is the exponent of the binade of a positive
  \<open>x\<close>: the \<open>e\<close> with \<open>2^e \<le> x < 2^(e+1)\<close>, found by stepping up from 0 when \<open>1 \<le> x\<close>
  and down from 0 otherwise, and never below \<open>-1022\<close>, the exponent of the subnormal
  numbers. The numbers of binary64 in that binade are the multiples of \<open>2^(e-52)\<close>, and
  \<open>float_round x\<close> is the one nearest to \<open>x\<close>, the tie going to the even multiple
  (\<open>round_half_even\<close>): the rounding of IEEE 754 that Python applies to every float
  operation. A result of magnitude \<open>2^1024\<close> or more is an overflow.

  \<open>py_int_mul n x\<close> is the expression \<^verbatim>\<open>int(n * x)\<close> for a length \<open>n\<close> and a float \<open>x\<close>:
  Python converts \<open>n\<close> to a float (OverflowError when it is too large), multiplies in
  binary64, and \<^verbatim>\<open>int\<close> truncates the product (OverflowError when the product is
  infinite).
\<close>

fun exponent_up :: "nat \<Rightarrow> rat \<Rightarrow> int \<Rightarrow> int" where
  "exponent_up 0 x e = e"
| "exponent_up (Suc k) x e = (if 2 powi (e + 1) \<le> x then exponent_up k x (e + 1) else e)"

fun exponent_down :: "nat \<Rightarrow> rat \<Rightarrow> int \<Rightarrow> int" where
  "exponent_down 0 x e = e"
| "exponent_down (Suc k) x e = (if x < 2 powi e then exponent_down k x (e - 1) else e)"

definition float_exponent :: "rat \<Rightarrow> int" where
  "float_exponent x = (if 1 \<le> x then exponent_up 2100 x 0 else exponent_down 1022 x 0)"

definition round_half_even :: "rat \<Rightarrow> int" where
  "round_half_even m =
     (let f = \<lfloor>m\<rfloor>; d = m - of_int f
      in if d < 1 / 2 then f else if 1 / 2 < d then f + 1 else if even f then f else f + 1)"

definition float_round :: "rat \<Rightarrow> rat" where
  "float_round x =
     (if x = 0 then 0
      else (let q = 2 powi (float_exponent \<bar>x\<bar> - 52)
            in sgn x * of_int (round_half_even (\<bar>x\<bar> / q)) * q))"

definition py_int_mul :: "nat \<Rightarrow> rat \<Rightarrow> error + int" where
  "py_int_mul n x =
     (let a = float_round (of_nat n)
      in if 2 powi 1024 \<le> a then Inl OverflowError
         else (let y = float_round (a * x)
               in if 2 powi 1024 \<le> \<bar>y\<bar> then Inl OverflowError else Inr (py_int y)))"

text \<open>
  The random generator is a numpy \<^verbatim>\<open>RandomState\<close>, which is not code of this
  repository. It is modelled by the sequence of raw draws it has still to deliver (an
  exhausted sequence delivers 0), so that quantifying over generators quantifies over every
  sequence of outcomes. \<^verbatim>\<open>randint(high)\<close>, which is \<^verbatim>\<open>randint(0, high)\<close>, reduces a draw
  into \<open>{0..<high}\<close> and raises ValueError when that range is empty; \<^verbatim>\<open>uniform()\<close>
  delivers a 53-bit fraction in \<open>[0, 1)\<close>; \<^verbatim>\<open>shuffle\<close> is numpy's in-place loop
  \<^verbatim>\<open>for i in reversed(range(1, n)): j = interval(i); x[i], x[j] = x[j], x[i]\<close>, and
  \<^verbatim>\<open>permutation(x)\<close> shuffles a copy, which in a pure model is \<open>shuffle\<close> as well.
\<close>

type_synonym rng = "nat list"

fun next_draw :: "rng \<Rightarrow> nat \<times> rng" where
  "next_draw [] = (0, [])"
| "next_draw (d # g) = (d, g)"

definition randint :: "rng \<Rightarrow> int \<Rightarrow> error + (nat \<times> rng)" where
  "randint g high =
     (if high \<le> 0 then Inl ValueError
      else (let (d, g') = next_draw g in Inr (d mod nat high, g')))"

definition uniform :: "rng \<Rightarrow> rat \<times> rng" where
  "uniform g = (let (d, g') = next_draw g in (of_nat (d mod 2 ^ 53) / 2 ^ 53, g'))"

fun shuffle_loop :: "nat \<Rightarrow> 'a list \<Rightarrow> rng \<Rightarrow> 'a list \<times> rng" where
  "shuffle_loop 0 x g = (x, g)"
| "shuffle_loop (Suc i) x g =
     (let (d, g') = next_draw g; j = d mod (Suc (Suc i))
      in shuffle_loop i (x[Suc i := x ! j, j := x ! (Suc i)]) g')"

definition shuffle :: "'a list \<Rightarrow> rng \<Rightarrow> 'a list \<times> rng" where
  "shuffle x g = shuffle_loop (length x - 1) x g"

text \<open>
  \<^verbatim>\<open>np.delete(arr, obj)\<close> for an array of positions \<open>obj\<close>: IndexError when a position
  is out of bounds, else \<open>arr\<close> without the entries at those positions.
  \<open>np_get arr obj\<close> is the read \<^verbatim>\<open>arr[obj]\<close> and \<open>np_put arr obj vals\<close> the assignment
  \<^verbatim>\<open>arr[obj] = vals\<close> for an index array \<open>obj\<close> whose positions are in bounds.
\<close>

definition np_delete :: "'a list \<Rightarrow> nat list \<Rightarrow> error + 'a list" where
  "np_delete arr obj =
     (if list_ex (\<lambda>i. length arr \<le> i) obj then Inl IndexError
      else Inr (map snd (filter (\<lambda>(k, v). k \<notin> set obj) (enumerate 0 arr))))"

definition np_get :: "'a list \<Rightarrow> nat list \<Rightarrow> 'a list" where
  "np_get arr obj = map (\<lambda>i. arr ! i) obj"

definition np_put :: "'a list \<Rightarrow> nat list \<Rightarrow> 'a list \<Rightarrow> 'a list" where
  "np_put arr obj vals = fold (\<lambda>(i, v) a. a[i := v]) (zip obj vals) arr"

subsection \<open>Dictionary, samples and tensors\<close>

text \<open>
  The dictionary class is not among the sources: its lookups are fields of a record, so a
  statement about every dictionary quantifies over every lookup function. \<open>pad_index\<close> is
  what \<^verbatim>\<open>pad()\<close> returns.
\<close>

record dictionary =
  index :: "string \<Rightarrow> int"
  cls_index :: int
  pad_index :: int
  unk_index :: int
  bos_index :: int
  eos_index :: int

record sample =
  sample_id :: int
  source :: "int list"
  target :: "int list option"

definition sent_sep_dic :: "string \<rightharpoonup> string" where
  "sent_sep_dic =
     [''roberta-base'' \<mapsto> ''</s>'', ''roberta-large'' \<mapsto> ''</s>'',
      ''bert-base-uncased'' \<mapsto> ''[SEP]'', ''bert-base-chinese'' \<mapsto> ''[SEP]'']"

definition SENT_MASK :: string where
  "SENT_MASK = ''<sent_mask>''"

text \<open>
  \<open>full n w v\<close> is a fresh \<open>n \<times> w\<close> tensor filled with \<open>v\<close>, and \<open>assign_prefix row xs\<close>
  the row after \<^verbatim>\<open>row[0:len(xs)] = xs\<close>. The source assigns such a prefix only to rows
  at least as long as \<open>xs\<close>: the row width is the maximum of the lengths assigned.
\<close>

definition full :: "nat \<Rightarrow> nat \<Rightarrow> 'a \<Rightarrow> 'a list list" where
  "full n w v = replicate n (replicate w v)"

definition assign_prefix :: "'a list \<Rightarrow> 'a list \<Rightarrow> 'a list" where
  "assign_prefix row xs = xs @ drop (length xs) row"

subsection \<open>docs2tensor\<close>

fun max_dims :: "(int list \<times> nat list) list \<Rightarrow> nat \<Rightarrow> nat \<Rightarrow> nat \<times> nat" where
  "max_dims [] max_doc_len max_nsent = (max_doc_len, max_nsent)"
| "max_dims ((doc, cls_pos) # docs) max_doc_len max_nsent =
     max_dims docs (max (length doc) max_doc_len) (max max_nsent (length cls_pos))"

fun fill_docs ::
  "nat \<Rightarrow> (int list \<times> nat list) list \<Rightarrow>
   int list list \<times> bool list list \<times> nat list list \<times> nat list \<Rightarrow>
   int list list \<times> bool list list \<times> nat list list \<times> nat list" where
  "fill_docs i [] st = st"
| "fill_docs i ((doc, cls_pos) # docs) (src_tokens, doc_pad_mask, cpos, nsents) =
     (let cls_len = length cls_pos
      in fill_docs (Suc i) docs
           (src_tokens[i := assign_prefix (src_tokens ! i) doc],
            doc_pad_mask[i := assign_prefix (doc_pad_mask ! i) (replicate cls_len False)],
            cpos[i := assign_prefix (cpos ! i) cls_pos],
            nsents @ [cls_len]))"

definition docs2tensor ::
  "(int list \<times> nat list) list \<Rightarrow> int \<Rightarrow> int \<Rightarrow>
   int list list \<times> bool list list \<times> int list list \<times> nat list list \<times> nat list" where
  "docs2tensor docs pad_idx sep_id =
     (let bsz = length docs;
          (max_doc_len, max_nsent) = max_dims docs 0 0;
          src_tokens = full bsz max_doc_len pad_idx;
          segment_ids = full bsz max_doc_len 0;
          cpos = full bsz max_nsent 0;
          doc_pad_mask = full bsz max_nsent True;
          (src_tokens', doc_pad_mask', cpos', nsents) =
             fill_docs 0 docs (src_tokens, doc_pad_mask, cpos, [])
      in (src_tokens', doc_pad_mask', segment_ids, cpos', nsents))"

subsection \<open>create_src_tok_batch: the permutation path\<close>

text \<open>
  \<open>truncate_loop\<close> is the first loop of both \<^verbatim>\<open>shuffle_sents\<close> functions: sentences are
  kept while the kept lengths plus the next one fit \<^verbatim>\<open>max_tokens_len\<close>, and the loop
  breaks at the first sentence that does not fit.
\<close>

fun truncate_loop :: "int list list \<Rightarrow> int \<Rightarrow> int list list \<Rightarrow> int list list" where
  "truncate_loop [] budget truncate_sents = truncate_sents"
| "truncate_loop (sent # sents) budget truncate_sents =
     (if int (sum_list (map length truncate_sents) + length sent) \<le> budget
      then truncate_loop sents budget (truncate_sents @ [sent])
      else truncate_sents)"

text \<open>
  \<open>place_loop\<close> is \<^verbatim>\<open>for idx, order in enumerate(target_order): shuffle_sents[order] = sents[idx]\<close>
  on a list that starts as \<^verbatim>\<open>[None] * n\<close>; either index out of range raises IndexError.
\<close>

fun place_loop ::
  "(nat \<times> nat) list \<Rightarrow> 'a list \<Rightarrow> 'a option list \<Rightarrow> error + 'a option list" where
  "place_loop [] sents out = Inr out"
| "place_loop ((idx, order) # rest) sents out =
     (if idx < length sents \<and> order < length out
      then place_loop rest sents (out[order := Some (sents ! idx)])
      else Inl IndexError)"

text \<open>
  The \<^verbatim>\<open>shuffle_sents\<close> nested in \<^verbatim>\<open>create_src_tok_batch\<close>; \<open>fix_ratio'\<close>, \<open>max_tokens_len'\<close>
  and the generator are the variables it closes over. \<open>len_fixed\<close> is
  \<^verbatim>\<open>int(len(truncate_sents) * fix_ratio)\<close>, the truncated binary64 product.
\<close>

definition shuffle_sents ::
  "rat \<Rightarrow> int \<Rightarrow> int list list \<Rightarrow> rng \<Rightarrow>
   error + (int list option list \<times> nat list \<times> rng)" where
  "shuffle_sents fix_ratio' max_tokens_len' sents g =
     (let truncate_sents = truncate_loop sents max_tokens_len' [];
          n = length truncate_sents;
          out = replicate n None;
          target_order = [0..<n]
      in case
           (if fix_ratio' = 0 then Inr (shuffle target_order g)
            else
              (case py_int_mul n fix_ratio' of
                 Inl e \<Rightarrow> Inl e
               | Inr len_fixed \<Rightarrow>
                   (case randint g (int n - len_fixed) of
                      Inl e \<Rightarrow> Inl e
                    | Inr (start_pos, g1) \<Rightarrow>
                        (let fixed_indexes = [start_pos..<start_pos + nat len_fixed]
                         in case np_delete target_order fixed_indexes of
                              Inl e \<Rightarrow> Inl e
                            | Inr shuffled_indexes \<Rightarrow>
                                (let (perm, g2) = shuffle (np_get target_order shuffled_indexes) g1;
                                     target_order' = np_put target_order shuffled_indexes perm
                                 in if np_get target_order' fixed_indexes = fixed_indexes
                                    then Inr (target_order', g2)
                                    else Inl AssertionError)))))
         of Inl e \<Rightarrow> Inl e
          | Inr (target_order', g') \<Rightarrow>
              (case place_loop (enumerate 0 target_order') sents out of
                 Inl e \<Rightarrow> Inl e
               | Inr shuffled \<Rightarrow> Inr (shuffled, target_order', g')))"

text \<open>
  The steps every sample takes before shuffling, in \<^verbatim>\<open>create_src_tok_batch\<close> and again
  in \<^verbatim>\<open>get_docs\<close>: cap each sentence at \<^verbatim>\<open>max_sent_length\<close> re-attaching the separator,
  prepend the class token, and close the last sentence with a separator if it has none.
\<close>

definition cap_sent :: "int \<Rightarrow> int \<Rightarrow> int list \<Rightarrow> int list" where
  "cap_sent max_sent_length sep_id sent =
     (if int (length sent) \<le> max_sent_length then sent
      else py_take (max_sent_length - 1) sent @ [sep_id])"

definition close_last :: "int \<Rightarrow> int list list \<Rightarrow> int list list" where
  "close_last sep_id sents =
     (if last (last sents) \<noteq> sep_id then butlast sents @ [last sents @ [sep_id]] else sents)"

text \<open>
  The second loop of \<^verbatim>\<open>create_src_tok_batch\<close> over the shuffled sentences; a slot still
  \<^verbatim>\<open>None\<close> makes \<^verbatim>\<open>len(sent)\<close> raise TypeError.
\<close>

fun pack_loop ::
  "int list option list \<Rightarrow> int \<Rightarrow> int list \<Rightarrow> nat list \<Rightarrow> error + (int list \<times> nat list)" where
  "pack_loop [] budget truncate_doc cls_pos = Inr (truncate_doc, cls_pos)"
| "pack_loop (None # sents) budget truncate_doc cls_pos = Inl TypeError"
| "pack_loop (Some sent # sents) budget truncate_doc cls_pos =
     (if int (length truncate_doc + length sent) \<le> budget
      then pack_loop sents budget (truncate_doc @ sent) (cls_pos @ [length truncate_doc])
      else Inr (truncate_doc, cls_pos))"

text \<open>
  The body of the loop over the samples: \<open>src_tok_sents\<close> is the sentence list of a sample
  as the loop prepares it, and \<open>None\<close> is the \<^verbatim>\<open>continue\<close> of a sample without sentences.
  \<open>max_doc_length\<close> is \<open>None\<close> or an integer, and \<^verbatim>\<open>if max_doc_length\<close> is false for both
  \<open>None\<close> and 0.
\<close>

definition prepare_sents ::
  "int \<Rightarrow> int \<Rightarrow> int list list \<Rightarrow> int list list" where
  "prepare_sents sep_id cls_idx sents =
     (let sents1 = map (\<lambda>sent. cls_idx # sent) sents
      in if sents1 = [] then [] else close_last sep_id sents1)"

definition src_tok_sents ::
  "int option \<Rightarrow> int option \<Rightarrow> int \<Rightarrow> int \<Rightarrow> sample \<Rightarrow> int list list" where
  "src_tok_sents max_doc_length max_sent_length sep_id cls_idx smp =
     (let sents = split_list (source smp) sep_id;
          sents1 = (case max_doc_length of
                      None \<Rightarrow> sents
                    | Some m \<Rightarrow> if m \<noteq> 0 then py_take m sents else sents);
          sents2 = (case max_sent_length of
                      None \<Rightarrow> sents1
                    | Some l \<Rightarrow> map (cap_sent l sep_id) sents1)
      in prepare_sents sep_id cls_idx sents2)"

definition src_tok_sample ::
  "rat \<Rightarrow> int option \<Rightarrow> int option \<Rightarrow> int \<Rightarrow> int \<Rightarrow> int \<Rightarrow> sample \<Rightarrow> rng \<Rightarrow>
   error + (((int list \<times> nat list) \<times> nat list) option \<times> rng)" where
  "src_tok_sample fix_ratio' max_doc_length max_sent_length max_tokens_len' sep_id cls_idx smp g =
     (let sents = src_tok_sents max_doc_length max_sent_length sep_id cls_idx smp
      in if sents = [] then Inr (None, g)
         else
           (case shuffle_sents fix_ratio' max_tokens_len' sents g of
              Inl e \<Rightarrow> Inl e
            | Inr (truncate_sents, target_order, g') \<Rightarrow>
                (case pack_loop truncate_sents max_tokens_len' [] [] of
                   Inl e \<Rightarrow> Inl e
                 | Inr (truncate_doc, cls_pos) \<Rightarrow>
                     Inr (Some ((truncate_doc, cls_pos), target_order), g'))))"

fun src_tok_loop ::
  "rat \<Rightarrow> int option \<Rightarrow> int option \<Rightarrow> int \<Rightarrow> int \<Rightarrow> int \<Rightarrow> sample list \<Rightarrow>
   (int list \<times> nat list) list \<Rightarrow> nat list list \<Rightarrow> rng \<Rightarrow>
   error + ((int list \<times> nat list) list \<times> nat list list \<times> rng)" where
  "src_tok_loop fr mdl msl mtl sep_id cls_idx [] docs target_orders g =
     Inr (docs, target_orders, g)"
| "src_tok_loop fr mdl msl mtl sep_id cls_idx (smp # samples) docs target_orders g =
     (case src_tok_sample fr mdl msl mtl sep_id cls_idx smp g of
        Inl e \<Rightarrow> Inl e
      | Inr (None, g') \<Rightarrow> src_tok_loop fr mdl msl mtl sep_id cls_idx samples docs target_orders g'
      | Inr (Some (doc, target_order), g') \<Rightarrow>
          src_tok_loop fr mdl msl mtl sep_id cls_idx samples
            (docs @ [doc]) (target_orders @ [target_order]) g')"

definition create_src_tok_batch ::
  "sample list \<Rightarrow> dictionary \<Rightarrow> rat \<Rightarrow> int option \<Rightarrow> int option \<Rightarrow> rng \<Rightarrow> int \<Rightarrow> string \<Rightarrow>
   error + ((int list list \<times> bool list list \<times> int list list \<times> nat list list \<times> nat list
            \<times> nat list list) \<times> rng)" where
  "create_src_tok_batch samples src_dict' fix_ratio' max_doc_length max_sent_length g
       max_tokens_len' bert_model' =
     (case sent_sep_dic bert_model' of
        None \<Rightarrow> Inl KeyError
      | Some sep \<Rightarrow>
          (let sep_id = index src_dict' sep;
               cls_idx = cls_index src_dict';
               pad_idx = pad_index src_dict'
           in if sep_id = 1 then Inl AssertionError
              else
                (case src_tok_loop fix_ratio' max_doc_length max_sent_length max_tokens_len'
                        sep_id cls_idx samples [] [] g of
                   Inl e \<Rightarrow> Inl e
                 | Inr (docs, target_orders, g') \<Rightarrow>
                     (let (src_tokens, doc_pad_mask, segment_ids, cpos, nsents) =
                            docs2tensor docs pad_idx sep_id
                      in Inr ((src_tokens, doc_pad_mask, segment_ids, cpos, nsents,
                               target_orders), g')))))"

subsection \<open>create_target_batch\<close>

fun target_loop ::
  "nat \<Rightarrow> nat list list \<Rightarrow> dictionary \<Rightarrow> nat list \<Rightarrow> bool \<Rightarrow> nat \<Rightarrow>
   int list list \<times> int list list \<Rightarrow> error + (int list list \<times> int list list)" where
  "target_loop i [] tgt_dict' nsents poniter_net maxlen st = Inr st"
| "target_loop i (s # tgt_orders) tgt_dict' nsents poniter_net maxlen (tgt, prev_output_tokens) =
     (if length nsents \<le> i then Inl IndexError
      else
        (let tgt_len = nsents ! i
         in if tgt_len \<noteq> length s then Inl AssertionError
            else
              (let row = assign_prefix (tgt ! i) (map int s);
                   row' = row[tgt_len := (if \<not> poniter_net then eos_index tgt_dict' else int maxlen)];
                   prow = (prev_output_tokens ! i)[0 := bos_index tgt_dict'];
                   prow' = take 1 prow @ map int s @ drop (Suc tgt_len) prow
               in target_loop (Suc i) tgt_orders tgt_dict' nsents poniter_net maxlen
                    (tgt[i := row'], prev_output_tokens[i := prow']))))"

definition create_target_batch ::
  "nat list list \<Rightarrow> dictionary \<Rightarrow> nat list \<Rightarrow> bool \<Rightarrow>
   error + (int list list \<times> int list list)" where
  "create_target_batch tgt_orders tgt_dict' nsents poniter_net =
     (if nsents = [] then Inl ValueError
      else
        (let maxlen = Max (set nsents);
             bsz = length tgt_orders;
             tgt = full bsz (maxlen + 1) (pad_index tgt_dict');
             prev_output_tokens = full bsz (maxlen + 1) (pad_index tgt_dict')
         in target_loop 0 tgt_orders tgt_dict' nsents poniter_net maxlen
              (tgt, prev_output_tokens)))"

subsection \<open>get_docs: the documents of the masking path\<close>

text \<open>
  The truncation loop of \<^verbatim>\<open>get_docs\<close>. Each sentence starts with the class token, so
  \<^verbatim>\<open>sent[-1]\<close> cannot fail; the assertion on it is kept. \<open>get_docs_sents\<close> is the
  sentence list of a sample as \<^verbatim>\<open>get_docs\<close> prepares it: unlike
  \<^verbatim>\<open>create_src_tok_batch\<close> it slices with \<^verbatim>\<open>max_doc_length\<close> unconditionally.
\<close>

fun get_docs_loop ::
  "int list list \<Rightarrow> int \<Rightarrow> int \<Rightarrow> int list \<Rightarrow> nat list \<Rightarrow> int list list \<Rightarrow>
   error + (int list list \<times> nat list)" where
  "get_docs_loop [] sep_id budget truncate_doc cls_pos truncate_doc_sents =
     Inr (truncate_doc_sents, cls_pos)"
| "get_docs_loop (sent # sents) sep_id budget truncate_doc cls_pos truncate_doc_sents =
     (if sent = [] then Inl IndexError
      else if last sent \<noteq> sep_id then Inl AssertionError
      else if int (length truncate_doc + length sent) \<le> budget
      then get_docs_loop sents sep_id budget (truncate_doc @ sent)
             (cls_pos @ [length truncate_doc]) (truncate_doc_sents @ [sent])
      else Inr (truncate_doc_sents, cls_pos))"

definition get_docs_sents ::
  "int option \<Rightarrow> int option \<Rightarrow> int \<Rightarrow> int \<Rightarrow> sample \<Rightarrow> int list list" where
  "get_docs_sents max_sent_length max_doc_length sep_id cls_idx smp =
     (let sents = split_list (source smp) sep_id;
          sents1 = (case max_doc_length of None \<Rightarrow> sents | Some m \<Rightarrow> py_take m sents);
          sents2 = (case max_sent_length of
                      None \<Rightarrow> sents1
                    | Some l \<Rightarrow> map (cap_sent l sep_id) sents1)
      in prepare_sents sep_id cls_idx sents2)"

definition get_docs_sample ::
  "int option \<Rightarrow> int option \<Rightarrow> int \<Rightarrow> int \<Rightarrow> int \<Rightarrow> sample \<Rightarrow>
   error + (int list list \<times> nat list) option" where
  "get_docs_sample max_sent_length max_doc_length max_tokens_len' sep_id cls_idx smp =
     (let sents = get_docs_sents max_sent_length max_doc_length sep_id cls_idx smp
      in if sents = [] then Inr None
         else
           (case get_docs_loop sents sep_id max_tokens_len' [] [] [] of
              Inl e \<Rightarrow> Inl e
            | Inr r \<Rightarrow> Inr (Some r)))"

fun get_docs_samples ::
  "int option \<Rightarrow> int option \<Rightarrow> int \<Rightarrow> int \<Rightarrow> int \<Rightarrow> sample list \<Rightarrow>
   int list list list \<Rightarrow> nat list list \<Rightarrow> error + (int list list list \<times> nat list list)" where
  "get_docs_samples msl mdl mtl sep_id cls_idx [] docs cls_poses = Inr (docs, cls_poses)"
| "get_docs_samples msl mdl mtl sep_id cls_idx (smp # samples) docs cls_poses =
     (case get_docs_sample msl mdl mtl sep_id cls_idx smp of
        Inl e \<Rightarrow> Inl e
      | Inr None \<Rightarrow> get_docs_samples msl mdl mtl sep_id cls_idx samples docs cls_poses
      | Inr (Some (doc, cls_pos)) \<Rightarrow>
          get_docs_samples msl mdl mtl sep_id cls_idx samples (docs @ [doc]) (cls_poses @ [cls_pos]))"

definition get_docs ::
  "sample list \<Rightarrow> dictionary \<Rightarrow> int option \<Rightarrow> int option \<Rightarrow> int \<Rightarrow> string \<Rightarrow>
   error + (int list list list \<times> nat list list)" where
  "get_docs samples vocab maxlen max_doc_length max_tokens_len' bert_model' =
     (case sent_sep_dic bert_model' of
        None \<Rightarrow> Inl KeyError
      | Some sep \<Rightarrow>
          (let sep_id = index vocab sep
           in if sep_id = unk_index vocab then Inl AssertionError
              else get_docs_samples maxlen max_doc_length max_tokens_len' sep_id
                     (cls_index vocab) samples [] []))"

subsection \<open>The dataset object\<close>

text \<open>
  The fields of \<^verbatim>\<open>SentsPermAndPredictMaskDataset\<close> that batch construction reads. The
  generator \<^verbatim>\<open>self.rng\<close> is the one piece of state that calls change, and is passed and
  returned explicitly. Options default to \<^verbatim>\<open>None\<close> in the source where they are
  \<open>option\<close> here.
\<close>

record dataset =
  src_dict :: dictionary
  tgt_dict :: dictionary
  is_poniter_net :: bool
  max_sent_len :: "int option"
  max_doc_len :: "int option"
  masked_sent_prob :: "rat option"
  max_predictions_per_doc :: "int option"
  min_predictions_per_doc :: int
  shuffle_prob :: rat
  mask_other_sents :: bool
  max_tokens_len :: int
  fix_ratio :: rat
  bert_model :: string
  sent_sep_idx :: int
  sent_mask_idx :: int

text \<open>
  \<^verbatim>\<open>__init__\<close>: the separator id is looked up and asserted to differ from the unknown
  id; the sentence-mask id is looked up and stored.
\<close>

definition dataset_init ::
  "dictionary \<Rightarrow> dictionary \<Rightarrow> bool \<Rightarrow> int option \<Rightarrow> int option \<Rightarrow> rat option \<Rightarrow>
   int option \<Rightarrow> rat \<Rightarrow> bool \<Rightarrow> int \<Rightarrow> rat \<Rightarrow> string \<Rightarrow> error + dataset" where
  "dataset_init src_dict' tgt_dict' is_poniter_net' max_sent_len' max_doc_len'
       masked_sent_prob' max_predictions_per_doc' shuffle_prob' mask_other_sents'
       max_tokens_len' fix_ratio' bert_model' =
     (case sent_sep_dic bert_model' of
        None \<Rightarrow> Inl KeyError
      | Some sep \<Rightarrow>
          (let sent_sep_idx' = index src_dict' sep
           in if sent_sep_idx' = unk_index src_dict' then Inl AssertionError
              else
                Inr \<lparr> src_dict = src_dict', tgt_dict = tgt_dict',
                      is_poniter_net = is_poniter_net', max_sent_len = max_sent_len',
                      max_doc_len = max_doc_len', masked_sent_prob = masked_sent_prob',
                      max_predictions_per_doc = max_predictions_per_doc',
                      min_predictions_per_doc = 1, shuffle_prob = shuffle_prob',
                      mask_other_sents = mask_other_sents', max_tokens_len = max_tokens_len',
                      fix_ratio = fix_ratio', bert_model = bert_model',
                      sent_sep_idx = sent_sep_idx',
                      sent_mask_idx = index src_dict' SENT_MASK \<rparr>))"

subsection \<open>doc2tensor\<close>

text \<open>
  The flattening loop of \<^verbatim>\<open>doc2tensor\<close>; a sentence slot that is \<^verbatim>\<open>None\<close> makes
  \<^verbatim>\<open>doc.extend(sent)\<close> raise TypeError. The rest of the method repeats the body of
  \<^verbatim>\<open>docs2tensor\<close>.
\<close>

fun flatten_loop ::
  "int list option list \<Rightarrow> int list \<Rightarrow> nat list \<Rightarrow> error + (int list \<times> nat list)" where
  "flatten_loop [] doc cls_pos = Inr (doc, cls_pos)"
| "flatten_loop (None # doc') doc cls_pos = Inl TypeError"
| "flatten_loop (Some sent # doc') doc cls_pos =
     flatten_loop doc' (doc @ sent) (cls_pos @ [length doc])"

fun flatten_docs ::
  "int list option list list \<Rightarrow> (int list \<times> nat list) list \<Rightarrow>
   error + (int list \<times> nat list) list" where
  "flatten_docs [] docs = Inr docs"
| "flatten_docs (doc' # docs') docs =
     (case flatten_loop doc' [] [] of
        Inl e \<Rightarrow> Inl e
      | Inr item \<Rightarrow> flatten_docs docs' (docs @ [item]))"

definition doc2tensor ::
  "dataset \<Rightarrow> int list option list list \<Rightarrow> dictionary \<Rightarrow>
   error + (int list list \<times> bool list list \<times> int list list \<times> nat list list \<times> nat list)" where
  "doc2tensor ds docs' vocab =
     (case flatten_docs docs' [] of
        Inl e \<Rightarrow> Inl e
      | Inr docs \<Rightarrow>
          (let pad_idx = pad_index vocab;
               bsz = length docs;
               (max_doc_len', max_nsent) = max_dims docs 0 0;
               src_tokens = full bsz max_doc_len' pad_idx;
               segment_ids = full bsz max_doc_len' 0;
               cpos = full bsz max_nsent 0;
               doc_pad_mask = full bsz max_nsent True;
               (src_tokens', doc_pad_mask', cpos', nsents) =
                  fill_docs 0 docs (src_tokens, doc_pad_mask, cpos, [])
           in Inr (src_tokens', doc_pad_mask', segment_ids, cpos', nsents)))"

subsection \<open>mask_sentences\<close>

text \<open>
  \<^verbatim>\<open>get_rnd_sent\<close>: up to ten draws of a document index, stopping at the first one that
  differs from \<open>index'\<close>; \<open>draw_doc_index k\<close> has \<open>k + 1\<close> draws left, and the tenth draw is
  taken whatever it is. Then a sentence of that document is drawn; \<^verbatim>\<open>randint(0, 0)\<close> on
  an empty pool or an empty document raises ValueError.
\<close>

fun draw_doc_index :: "nat \<Rightarrow> nat \<Rightarrow> nat \<Rightarrow> rng \<Rightarrow> error + (nat \<times> rng)" where
  "draw_doc_index k index' n g =
     (case randint g (int n) of
        Inl e \<Rightarrow> Inl e
      | Inr (rnd_idx, g') \<Rightarrow>
          (if rnd_idx \<noteq> index' then Inr (rnd_idx, g')
           else (case k of 0 \<Rightarrow> Inr (rnd_idx, g') | Suc k' \<Rightarrow> draw_doc_index k' index' n g')))"

definition get_rnd_sent ::
  "nat \<Rightarrow> int list list list \<Rightarrow> rng \<Rightarrow> error + (int list \<times> rng)" where
  "get_rnd_sent index' docs g =
     (case draw_doc_index 9 index' (length docs) g of
        Inl e \<Rightarrow> Inl e
      | Inr (rnd_idx, g1) \<Rightarrow>
          (let sampled_doc = docs ! rnd_idx
           in case randint g1 (int (length sampled_doc)) of
                Inl e \<Rightarrow> Inl e
              | Inr (k, g2) \<Rightarrow> Inr (sampled_doc ! k, g2)))"

text \<open>
  The \<^verbatim>\<open>shuffle_sents\<close> nested in \<^verbatim>\<open>mask_sentences\<close>, which keeps the positions
  \<open>fixed_indexes\<close> in place. \<^verbatim>\<open>np.array(fixed_indexes)\<close> of an empty list is an array of
  floats, and reading \<^verbatim>\<open>target_order[fixed_indexes]\<close> with it raises IndexError.
\<close>

definition shuffle_sents_fixed ::
  "int \<Rightarrow> int list list \<Rightarrow> nat list \<Rightarrow> rat \<Rightarrow> rng \<Rightarrow>
   error + (int list option list \<times> rng)" where
  "shuffle_sents_fixed max_tokens_len' sents fixed_indexes shuffle_prob' g =
     (let truncate_sents = truncate_loop sents max_tokens_len' [];
          n = length truncate_sents;
          shuffled_sents = replicate n None;
          target_order = [0..<n]
      in case np_delete target_order fixed_indexes of
           Inl e \<Rightarrow> Inl e
         | Inr shuffled_indexes \<Rightarrow>
             (let (u, g1) = uniform g
              in if u < shuffle_prob'
                 then
                   (let (perm, g2) = shuffle (np_get target_order shuffled_indexes) g1;
                        target_order' = np_put target_order shuffled_indexes perm
                    in if fixed_indexes = [] then Inl IndexError
                       else if np_get target_order' fixed_indexes \<noteq> fixed_indexes
                       then Inl AssertionError
                       else
                         (case place_loop (enumerate 0 target_order') sents shuffled_sents of
                            Inl e \<Rightarrow> Inl e
                          | Inr shuffled_sents' \<Rightarrow> Inr (shuffled_sents', g2)))
                 else Inr (map Some truncate_sents, g1)))"

text \<open>
  The corruption loop over the sorted selected positions. \<open>output_doc\<close> is the document
  being rewritten, \<open>doc\<close> the original one, \<open>masked_sents\<close> the originals collected so far.
  \<open>adjust_rnd_sent\<close> is the length adjustment of the sentence drawn from the pool,
  \<open>corrupt_sent\<close> the three-way branch of one iteration, and \<open>corrupt_loop\<close> the loop,
  which appends the original sentence after each iteration.
\<close>

definition adjust_rnd_sent :: "dataset \<Rightarrow> nat \<Rightarrow> int list \<Rightarrow> int list" where
  "adjust_rnd_sent ds ori_len rnd_sent =
     (if length rnd_sent > ori_len
      then py_take (int ori_len - 1) rnd_sent @ [last rnd_sent]
      else if length rnd_sent < ori_len
      then butlast rnd_sent @ replicate (ori_len - length rnd_sent) (sent_mask_idx ds)
             @ [sent_sep_idx ds]
      else rnd_sent)"

definition corrupt_sent ::
  "dataset \<Rightarrow> nat \<Rightarrow> int list list list \<Rightarrow> int list list \<Rightarrow> nat \<Rightarrow>
   int list option list \<Rightarrow> rng \<Rightarrow> error + (int list option list \<times> rng)" where
  "corrupt_sent ds index' docs doc i output_doc g =
     (let (u, g1) = uniform g
      in if u < 8 / 10
         then
           (if length output_doc \<le> i then Inl IndexError
            else
              (case output_doc ! i of
                 None \<Rightarrow> Inl TypeError
               | Some old \<Rightarrow>
                   (let masked_sent = replicate (length old) (sent_mask_idx ds)
                    in if masked_sent = [] then Inl IndexError
                       else
                         (let masked_sent1 = masked_sent[0 := cls_index (src_dict ds)];
                              masked_sent2 = masked_sent1[length masked_sent1 - 1 := sent_sep_idx ds]
                          in Inr (output_doc[i := Some masked_sent2], g1)))))
         else
           (let (u2, g2) = uniform g1
            in if u2 < 5 / 10
               then
                 (if length doc \<le> i \<or> length output_doc \<le> i then Inl IndexError
                  else Inr (output_doc[i := Some (doc ! i)], g2))
               else
                 (case get_rnd_sent index' docs g2 of
                    Inl e \<Rightarrow> Inl e
                  | Inr (rnd_sent, g3) \<Rightarrow>
                      (if length doc \<le> i then Inl IndexError
                       else
                         (let ori_len = length (doc ! i);
                              rnd_sent' = adjust_rnd_sent ds ori_len rnd_sent
                          in if length output_doc \<le> i then Inl IndexError
                             else Inr (output_doc[i := Some rnd_sent'], g3))))))"

fun corrupt_loop ::
  "dataset \<Rightarrow> nat \<Rightarrow> int list list list \<Rightarrow> int list list \<Rightarrow> nat list \<Rightarrow>
   int list option list \<Rightarrow> int list list \<Rightarrow> rng \<Rightarrow>
   error + (int list option list \<times> int list list \<times> rng)" where
  "corrupt_loop ds index' docs doc [] output_doc masked_sents g =
     Inr (output_doc, masked_sents, g)"
| "corrupt_loop ds index' docs doc (i # selected) output_doc masked_sents g =
     (case corrupt_sent ds index' docs doc i output_doc g of
        Inl e \<Rightarrow> Inl e
      | Inr (output_doc', g') \<Rightarrow>
          (if length doc \<le> i then Inl IndexError
           else corrupt_loop ds index' docs doc selected output_doc'
                  (masked_sents @ [doc ! i]) g'))"

definition mask_sentences ::
  "dataset \<Rightarrow> nat \<Rightarrow> int list list list \<Rightarrow> rat \<Rightarrow> int \<Rightarrow> dictionary \<Rightarrow> rng \<Rightarrow>
   error + (int list option list \<times> nat list \<times> int list list \<times> rng)" where
  "mask_sentences ds index' docs masked_sent_prob' max_predictions_per_doc' vocab g =
     (if length docs \<le> index' then Inl IndexError
      else
        (let doc = docs ! index';
             (candi_indexes, g1) = shuffle [0..<length doc] g
         in case py_int_mul (length candi_indexes) masked_sent_prob' of
              Inl e \<Rightarrow> Inl e
            | Inr product \<Rightarrow>
                (let num_pred = min (max (min_predictions_per_doc ds) product)
                                  max_predictions_per_doc'
                 in if \<not> distinct (py_take num_pred candi_indexes) then Inl AssertionError
                    else
                      (let selected_indexes = py_take num_pred candi_indexes
                       in case shuffle_sents_fixed (max_tokens_len ds) doc selected_indexes
                                 (shuffle_prob ds) g1 of
                            Inl e \<Rightarrow> Inl e
                          | Inr (output_doc, g2) \<Rightarrow>
                              (let selected_indexes' = sort selected_indexes
                               in case corrupt_loop ds index' docs doc selected_indexes' output_doc
                                         [] g2 of
                                    Inl e \<Rightarrow> Inl e
                                  | Inr (output_doc', masked_sents, g3) \<Rightarrow>
                                      Inr (output_doc', selected_indexes', masked_sents, g3))))))"

subsection \<open>masked_sents2tensor\<close>

text \<open>
  A 3-D tensor is the list, per document, of its rows. \<open>sel_loop\<close> fills the selected
  positions, \<open>sent_dims\<close> is the loop computing \<^verbatim>\<open>max_nsent2\<close> and \<^verbatim>\<open>max_sent_len\<close>
  (\<^verbatim>\<open>max\<close> of an empty sequence raises ValueError), \<open>sents_loop\<close> and \<open>masked_loop\<close> are
  the two nested loops that store each sentence.
\<close>

fun sel_loop :: "nat \<Rightarrow> nat list list \<Rightarrow> nat list list \<Rightarrow> nat list list" where
  "sel_loop i [] tgt_selected_indexes = tgt_selected_indexes"
| "sel_loop i (sel_idxs # rest) tgt_selected_indexes =
     sel_loop (Suc i) rest
       (tgt_selected_indexes[i := assign_prefix (tgt_selected_indexes ! i) sel_idxs])"

fun sent_dims :: "int list list list \<Rightarrow> nat \<Rightarrow> nat \<Rightarrow> error + (nat \<times> nat)" where
  "sent_dims [] max_nsent2 max_sent_len' = Inr (max_nsent2, max_sent_len')"
| "sent_dims (masked_sents # rest) max_nsent2 max_sent_len' =
     (if masked_sents = [] then Inl ValueError
      else
        (let local_max_sent_len = Max (set (map length masked_sents))
         in sent_dims rest (max max_nsent2 (length masked_sents))
              (max max_sent_len' local_max_sent_len)))"

fun sents_loop ::
  "dataset \<Rightarrow> nat \<Rightarrow> int list list \<Rightarrow> int list list \<times> int list list \<Rightarrow>
   error + (int list list \<times> int list list)" where
  "sents_loop ds j [] rows = Inr rows"
| "sents_loop ds j (sent # rest) (inp, tgt) =
     (if sent = [] then Inl IndexError
      else if hd sent \<noteq> cls_index (src_dict ds) then Inl AssertionError
      else
        (let sent' = tl sent; sent_len = length sent'
         in if sent' = [] then Inl IndexError
            else if last sent' \<noteq> sent_sep_idx ds then Inl AssertionError
            else
              (let irow = inp ! j;
                   irow' = take 1 irow @ butlast sent' @ drop sent_len irow;
                   trow' = assign_prefix (tgt ! j) sent'
               in sents_loop ds (Suc j) rest (inp[j := irow'], tgt[j := trow']))))"

fun masked_loop ::
  "dataset \<Rightarrow> nat \<Rightarrow> int list list list \<Rightarrow> int list list list \<times> int list list list \<Rightarrow>
   error + (int list list list \<times> int list list list)" where
  "masked_loop ds i [] tensors = Inr tensors"
| "masked_loop ds i (masked_sents # rest) (tgt_input_masked_sents, tgt_masked_sents) =
     (if masked_sents \<noteq> [] \<and> length tgt_input_masked_sents \<le> i then Inl IndexError
      else
        (case sents_loop ds 0 masked_sents (tgt_input_masked_sents ! i, tgt_masked_sents ! i) of
           Inl e \<Rightarrow> Inl e
         | Inr (inp, tgt) \<Rightarrow>
             masked_loop ds (Suc i) rest
               (tgt_input_masked_sents[i := inp], tgt_masked_sents[i := tgt])))"

definition masked_sents2tensor ::
  "dataset \<Rightarrow> nat list list \<Rightarrow> int list list list \<Rightarrow>
   error + (nat list list \<times> int list list list \<times> int list list list)" where
  "masked_sents2tensor ds docs_selected_indexes docs_masked_sents =
     (let bsz = length docs_selected_indexes
      in if docs_selected_indexes = [] then Inl ValueError
         else
           (let max_nsent = Max (set (map length docs_selected_indexes));
                tgt_selected_indexes = sel_loop 0 docs_selected_indexes (full bsz max_nsent 0)
            in case sent_dims docs_masked_sents 0 0 of
                 Inl e \<Rightarrow> Inl e
               | Inr (max_nsent2, max_sent_len') \<Rightarrow>
                   (if max_nsent \<noteq> max_nsent2 then Inl AssertionError
                    else if max_sent_len' = 0 then Inl IndexError
                    else
                      (let pad = pad_index (src_dict ds);
                           tgt_input_masked_sents =
                             replicate bsz (replicate max_nsent
                               ((replicate max_sent_len' pad)[0 := cls_index (src_dict ds)]));
                           tgt_masked_sents =
                             replicate bsz (replicate max_nsent (replicate max_sent_len' pad))
                       in case masked_loop ds 0 docs_masked_sents
                                 (tgt_input_masked_sents, tgt_masked_sents) of
                            Inl e \<Rightarrow> Inl e
                          | Inr (tgt_input_masked_sents', tgt_masked_sents') \<Rightarrow>
                              Inr (tgt_selected_indexes, tgt_input_masked_sents',
                                   tgt_masked_sents')))))"

subsection \<open>create_batch: the masking path\<close>

fun mask_docs_loop ::
  "dataset \<Rightarrow> dictionary \<Rightarrow> int list list list \<Rightarrow> nat list \<Rightarrow>
   int list option list list \<Rightarrow> nat list list \<Rightarrow> int list list list \<Rightarrow> rng \<Rightarrow>
   error + (int list option list list \<times> nat list list \<times> int list list list \<times> rng)" where
  "mask_docs_loop ds vocab docs [] new_docs docs_selected_indexes docs_masked_sents g =
     Inr (new_docs, docs_selected_indexes, docs_masked_sents, g)"
| "mask_docs_loop ds vocab docs (i # is) new_docs docs_selected_indexes docs_masked_sents g =
     (case (masked_sent_prob ds, max_predictions_per_doc ds) of
        (Some p, Some m) \<Rightarrow>
          (case mask_sentences ds i docs p m vocab g of
             Inl e \<Rightarrow> Inl e
           | Inr (new_doc, selected_indexes, masked_sents, g') \<Rightarrow>
               mask_docs_loop ds vocab docs is (new_docs @ [new_doc])
                 (docs_selected_indexes @ [selected_indexes])
                 (docs_masked_sents @ [masked_sents]) g')
      | _ \<Rightarrow> Inl TypeError)"

definition create_batch ::
  "dataset \<Rightarrow> sample list \<Rightarrow> dictionary \<Rightarrow> int option \<Rightarrow> rng \<Rightarrow>
   error + ((int list list \<times> bool list list \<times> nat list list \<times> int list list list
             \<times> int list list list \<times> int list list \<times> nat list list \<times> nat list) \<times> rng)" where
  "create_batch ds samples vocab max_sent_length g =
     (case max_sent_length of
        None \<Rightarrow> Inl TypeError
      | Some l \<Rightarrow>
          (case get_docs samples vocab (Some (l + 1)) (max_doc_len ds) (max_tokens_len ds)
                  (bert_model ds) of
             Inl e \<Rightarrow> Inl e
           | Inr (docs, cls_poses) \<Rightarrow>
               (case mask_docs_loop ds vocab docs [0..<length docs] [] [] [] g of
                  Inl e \<Rightarrow> Inl e
                | Inr (new_docs, docs_selected_indexes, docs_masked_sents, g') \<Rightarrow>
                    (case doc2tensor ds new_docs vocab of
                       Inl e \<Rightarrow> Inl e
                     | Inr (src_tokens, doc_pad_mask, segment_ids, cpos, nsents) \<Rightarrow>
                         (case masked_sents2tensor ds docs_selected_indexes docs_masked_sents of
                            Inl e \<Rightarrow> Inl e
                          | Inr (tgt_selected_indexes, tgt_input_masked_sents, tgt_masked_sents) \<Rightarrow>
                              Inr ((src_tokens, doc_pad_mask, tgt_selected_indexes,
                                    tgt_input_masked_sents, tgt_masked_sents, segment_ids,
                                    cpos, nsents), g'))))))"

subsection \<open>mask_others\<close>

text \<open>
  Without \<^verbatim>\<open>mask_other_sents\<close> the token mask is the 2-D tensor of non-pad positions.
  With it, the mask is a \<open>bsz \<times> 1 \<times> L \<times> L\<close> tensor in which each sentence span is a square
  block. The loop variables \<^verbatim>\<open>j\<close>, \<^verbatim>\<open>k\<close> survive from one row to the next and are unbound
  before the first pair (\<open>None\<close>): reading \<^verbatim>\<open>k\<close> then raises NameError.
  \<open>cpos\<close>, \<open>n_tokens\<close> and the mask have one row per document of the batch.
\<close>

datatype token_mask = Mask2 "bool list list" | Mask4 "bool list list list list"

definition set_block :: "bool list list \<Rightarrow> nat \<Rightarrow> nat \<Rightarrow> bool list list" where
  "set_block m a b =
     map (\<lambda>(r, row). if a \<le> r \<and> r < b
                      then map (\<lambda>(c, x). if a \<le> c \<and> c < b then True else x) (enumerate 0 row)
                      else row)
         (enumerate 0 m)"

fun pair_loop ::
  "(nat \<times> nat) list \<Rightarrow> bool list list \<Rightarrow> (nat \<times> nat) option \<Rightarrow>
   bool list list \<times> (nat \<times> nat) option" where
  "pair_loop [] m jk = (m, jk)"
| "pair_loop ((j, k) # rest) m jk =
     (if k = 0 then (m, Some (j, k)) else pair_loop rest (set_block m j k) (Some (j, k)))"

fun rows_loop ::
  "nat list list \<Rightarrow> nat list \<Rightarrow> bool list list list \<Rightarrow> (nat \<times> nat) option \<Rightarrow>
   bool list list list \<Rightarrow> error + bool list list list" where
  "rows_loop [] n_tokens ms jk done = Inr done"
| "rows_loop (crow # cpos) n_tokens ms jk done =
     (case pair_loop (zip (butlast crow) (tl crow)) (hd ms) jk of
        (m, None) \<Rightarrow> Inl NameError
      | (m, Some (j, k)) \<Rightarrow>
          (let m' = (if k = 0 then set_block m j (hd n_tokens) else set_block m k (hd n_tokens))
           in rows_loop cpos (tl n_tokens) (tl ms) (Some (j, k)) (done @ [m'])))"

definition mask_others ::
  "int list list \<Rightarrow> nat list list \<Rightarrow> bool \<Rightarrow> int \<Rightarrow> error + token_mask" where
  "mask_others src_tokens cpos mask_other_sents' pad_idx =
     (let token_mask = map (map (\<lambda>t. t \<noteq> pad_idx)) src_tokens
      in if mask_other_sents'
         then
           (let n_tokens = map (\<lambda>row. length (filter (\<lambda>b. b) row)) token_mask;
                w = (if src_tokens = [] then 0 else length (hd src_tokens));
                blank = replicate (length src_tokens) (replicate w (replicate w False))
            in case rows_loop cpos n_tokens blank None [] of
                 Inl e \<Rightarrow> Inl e
               | Inr ms \<Rightarrow> Inr (Mask4 (map (\<lambda>m. [m]) ms)))
         else Inr (Mask2 token_mask))"

subsection \<open>collate\<close>

text \<open>
  The returned dictionary is an association list from keys to values; \<^verbatim>\<open>{}\<close> is the
  empty list. \<open>check_views\<close> is the three assertions that compare the two views.
\<close>

datatype batch_value =
    IntV int
  | LongT1 "int list"
  | LongT "int list list"
  | LongT3 "int list list list"
  | NatT "nat list list"
  | BoolT "bool list list"
  | MaskT token_mask
  | DictV "(string \<times> batch_value) list"

definition check_views ::
  "bool list list \<times> int list list \<times> nat list \<Rightarrow> bool list list \<times> int list list \<times> nat list \<Rightarrow>
   error + unit" where
  "check_views v1 v2 =
     (case (v1, v2) of
        ((doc_pad_mask, segment_ids, nsents), (doc_pad_mask_2, segment_ids_2, nsents_2)) \<Rightarrow>
          if doc_pad_mask \<noteq> doc_pad_mask_2 then Inl AssertionError
          else if segment_ids \<noteq> segment_ids_2 then Inl AssertionError
          else if nsents \<noteq> nsents_2 then Inl AssertionError
          else Inr ())"

definition collate ::
  "dataset \<Rightarrow> sample list \<Rightarrow> dictionary \<Rightarrow> dictionary \<Rightarrow> bool \<Rightarrow> int option \<Rightarrow> rng \<Rightarrow>
   error + ((string \<times> batch_value) list \<times> rng)" where
  "collate ds samples src_dict' tgt_dict' is_poniter_net' max_doc_len' g =
     (if length samples = 0 then Inr ([], g)
      else
        (let ids = map sample_id samples
         in case max_sent_len ds of
              None \<Rightarrow> Inl TypeError
            | Some msl \<Rightarrow>
                (case create_src_tok_batch samples src_dict' (fix_ratio ds) max_doc_len'
                        (Some (msl + 1)) g (max_tokens_len ds) (bert_model ds) of
                   Inl e \<Rightarrow> Inl e
                 | Inr ((src_tokens, doc_pad_mask, segment_ids, cpos, nsents, tgt_orders), g1) \<Rightarrow>
                     (case create_batch ds samples src_dict' (max_sent_len ds) g1 of
                        Inl e \<Rightarrow> Inl e
                      | Inr ((src_tokens_with_mask, doc_pad_mask_2, tgt_selected_indexes,
                              tgt_input_masked_sents, tgt_masked_sents, segment_ids_2,
                              cpos_mask, nsents_2), g2) \<Rightarrow>
                          (case check_views (doc_pad_mask, segment_ids, nsents)
                                  (doc_pad_mask_2, segment_ids_2, nsents_2) of
                             Inl e \<Rightarrow> Inl e
                           | Inr u \<Rightarrow>
                               (let pad = pad_index (src_dict ds)
                                in case mask_others src_tokens cpos (mask_other_sents ds) pad of
                                     Inl e \<Rightarrow> Inl e
                                   | Inr token_mask \<Rightarrow>
                               (case mask_others src_tokens_with_mask cpos_mask
                                       (mask_other_sents ds) pad of
                                  Inl e \<Rightarrow> Inl e
                                | Inr token_mask_with_mask \<Rightarrow>
                               (if src_tokens = [] \<or> hd src_tokens = [] then Inl IndexError
                                else
                                  (let doc_pos_tok =
                                         map (map (\<lambda>b. if b then pad_index src_dict'
                                                         else hd (hd src_tokens))) doc_pad_mask;
                                       ntokens_sent = sum_list nsents;
                                       ntokens = length (filter (\<lambda>t. t \<noteq> pad)
                                                   (concat (concat tgt_masked_sents)))
                                   in case create_target_batch tgt_orders tgt_dict' nsents
                                             is_poniter_net' of
                                        Inl e \<Rightarrow> Inl e
                                      | Inr (target_perm, prev_output_tokens_perm) \<Rightarrow>
                                          Inr ([(''id'', LongT1 ids),
                                                (''ntokens'', IntV (int ntokens)),
                                                (''ntokens_sent'', IntV (int ntokens_sent)),
                                                (''net_input'', DictV
                                                  [(''src_tokens'', LongT src_tokens),
                                                   (''src_tokens_with_mask'', LongT src_tokens_with_mask),
                                                   (''doc_pad_mask'', BoolT doc_pad_mask),
                                                   (''token_mask'', MaskT token_mask),
                                                   (''token_mask_with_mask'', MaskT token_mask_with_mask),
                                                   (''segment_ids'', LongT segment_ids),
                                                   (''doc_pos_tok'', LongT doc_pos_tok),
                                                   (''prev_output_tokens_perm'', LongT prev_output_tokens_perm),
                                                   (''cls_pos'', NatT cpos),
                                                   (''cls_pos_mask'', NatT cpos_mask),
                                                   (''masked_sent_positions'', NatT tgt_selected_indexes),
                                                   (''prev_output_tokens'', LongT3 tgt_input_masked_sents)]),
                                                (''target_perm'', LongT target_perm),
                                                (''target'', LongT3 tgt_masked_sents)], g2))))))))))"

definition collater :: "dataset \<Rightarrow> sample list \<Rightarrow> rng \<Rightarrow> error + ((string \<times> batch_value) list \<times> rng)" where
  "collater ds samples g =
     collate ds samples (src_dict ds) (tgt_dict ds) (is_poniter_net ds) (max_doc_len ds) g"

subsection \<open>Well-formed sentences\<close>

text \<open>
  The shape the data model gives every sentence of a document: it starts with the class
  token and ends with the separator, with at least these two tokens.
\<close>

definition sent_ok :: "int \<Rightarrow> int \<Rightarrow> int list \<Rightarrow> bool" where
  "sent_ok cls sep s = (2 \<le> length s \<and> hd s = cls \<and> last s = sep)"

subsection \<open>Concrete dictionaries and datasets\<close>

text \<open>
  A dictionary laid out as RoBERTa's (\<open><s>\<close> 0, \<open><pad>\<close> 1, \<open></s>\<close> 2, \<open><unk>\<close> 3) with
  the sentence-mask symbol at 50, and the same dictionary without that symbol, whose
  lookup then gives the unknown id.
\<close>

definition example_dict :: dictionary where
  "example_dict =
     \<lparr> index = (\<lambda>s. if s = ''</s>'' then 2 else if s = ''<sent_mask>'' then 50 else 3),
       cls_index = 0, pad_index = 1, unk_index = 3, bos_index = 0, eos_index = 2 \<rparr>"

definition unmasked_dict :: dictionary where
  "unmasked_dict =
     \<lparr> index = (\<lambda>s. if s = ''</s>'' then 2 else 3),
       cls_index = 0, pad_index = 1, unk_index = 3, bos_index = 0, eos_index = 2 \<rparr>"

definition example_dataset :: dataset where
  "example_dataset =
     \<lparr> src_dict = example_dict, tgt_dict = example_dict, is_poniter_net = True,
       max_sent_len = Some 10, max_doc_len = Some 5, masked_sent_prob = Some (5 / 8),
       max_predictions_per_doc = Some 5, min_predictions_per_doc = 1, shuffle_prob = 1,
       mask_other_sents = False, max_tokens_len = 100, fix_ratio = 0,
       bert_model = ''roberta-base'', sent_sep_idx = 2, sent_mask_idx = 50 \<rparr>"

section \<open>Properties\<close>

subsection \<open>The sentence splitter\<close>

lemma split_list_loop_concat:
  "split_list_loop lst key res sub = (r, s) \<Longrightarrow> concat r @ s = concat res @ sub @ lst"
  by (induction lst key res sub rule: split_list_loop.induct) (auto simp: Let_def split: if_splits)

lemma split_list_loop_sents:
  "split_list_loop lst key res sub = (r, s) \<Longrightarrow>
   \<forall>x \<in> set res. x \<noteq> [] \<and> last x = key \<and> key \<notin> set (butlast x) \<Longrightarrow> key \<notin> set sub \<Longrightarrow>
   (\<forall>x \<in> set r. x \<noteq> [] \<and> last x = key \<and> key \<notin> set (butlast x)) \<and> key \<notin> set s"
proof (induction lst key res sub rule: split_list_loop.induct)
  case (1 key res sublist)
  then show ?case by simp
next
  case (2 v lst key res sublist)
  show ?case
  proof (cases "v = key")
    case True
    with 2 show ?thesis by (auto simp: Let_def butlast_append)
  next
    case False
    with 2 show ?thesis by (auto simp: Let_def)
  qed
qed

lemma concat_last_key:
  "\<forall>x \<in> set r. x \<noteq> [] \<and> last x = key \<Longrightarrow> r \<noteq> [] \<Longrightarrow> concat r \<noteq> [] \<and> last (concat r) = key"
  by (induction r rule: rev_induct) auto

lemma count_list_one_key:
  "x \<noteq> [] \<Longrightarrow> last x = key \<Longrightarrow> key \<notin> set (butlast x) \<Longrightarrow> count_list x key = 1"
  by (induction x) (auto split: if_splits)

lemma count_list_append: "count_list (xs @ ys) k = count_list xs k + count_list ys k"
  by (induction xs) auto

lemma count_list_concat_key:
  "\<forall>x \<in> set r. x \<noteq> [] \<and> last x = key \<and> key \<notin> set (butlast x) \<Longrightarrow> count_list (concat r) key = length r"
  by (induction r) (auto simp: count_list_append count_list_one_key)

lemma split_list_cases:
  obtains r s where "split_list_loop lst key [] [] = (r, s)" "concat r @ s = lst"
    "\<forall>x \<in> set r. x \<noteq> [] \<and> last x = key \<and> key \<notin> set (butlast x)" "key \<notin> set s"
    "split_list lst key = (if s = [] then r else r @ [s])"
proof -
  obtain r s where rs: "split_list_loop lst key [] [] = (r, s)" by (cases "split_list_loop lst key [] []")
  have c: "concat r @ s = lst" using split_list_loop_concat[OF rs] by simp
  have w: "(\<forall>x \<in> set r. x \<noteq> [] \<and> last x = key \<and> key \<notin> set (butlast x)) \<and> key \<notin> set s"
    using split_list_loop_sents[OF rs] by simp
  have d: "split_list lst key = (if s = [] then r else r @ [s])"
    by (simp add: split_list_def rs)
  show thesis using that[OF rs c _ _ d] w by blast
qed

text \<open>
  C9. The sentences returned by \<open>split_list\<close>, concatenated in order, are the input (no
  token is dropped or reordered); no sentence is empty and a separator occurs in a sentence
  only as its last token, so a new sentence starts right after each separator; every sentence
  but the last ends with the separator; when the input ends without a separator the
  remainder is emitted as a last sentence not ending with the separator, and otherwise every
  sentence ends with the separator (no empty remainder is emitted), so that the number of
  sentences is the number of separators, plus one for a trailing remainder.
\<close>

theorem split_list_spec:
  "concat (split_list lst key) = lst
   \<and> (\<forall>s \<in> set (split_list lst key). s \<noteq> [] \<and> key \<notin> set (butlast s))
   \<and> (\<forall>s \<in> set (butlast (split_list lst key)). last s = key)
   \<and> (lst \<noteq> [] \<and> last lst \<noteq> key \<longrightarrow>
        split_list lst key \<noteq> [] \<and> last (last (split_list lst key)) \<noteq> key)
   \<and> (lst = [] \<or> last lst = key \<longrightarrow> (\<forall>s \<in> set (split_list lst key). last s = key))
   \<and> length (split_list lst key) =
        count_list lst key + (if lst \<noteq> [] \<and> last lst \<noteq> key then 1 else 0)"
proof (rule split_list_cases[of lst key])
  fix r s
  assume rs: "split_list_loop lst key [] [] = (r, s)"
    and c: "concat r @ s = lst"
    and w: "\<forall>x \<in> set r. x \<noteq> [] \<and> last x = key \<and> key \<notin> set (butlast x)"
    and ks: "key \<notin> set s"
    and d: "split_list lst key = (if s = [] then r else r @ [s])"
  have cnt: "count_list lst key = length r"
    using count_list_concat_key[OF w] ks c[symmetric] by (simp add: count_list_append)
  show ?thesis
  proof (cases "s = []")
    case True
    then have l: "lst = concat r" using c by simp
    have e: "lst = [] \<or> last lst = key"
    proof (cases "r = []")
      case True then show ?thesis using l by simp
    next
      case False then show ?thesis using concat_last_key[of r key] w l by simp
    qed
    have b: "\<forall>x \<in> set (butlast r). last x = key" using w by (auto dest: in_set_butlastD)
    show ?thesis using True d l w e cnt b by auto
  next
    case False
    then have ls: "lst \<noteq> [] \<and> last lst = last s" using c by auto
    have "last s \<in> set s" using False by simp
    then have n: "last s \<noteq> key" using ks by auto
    show ?thesis using False d c w ks ls n cnt by (auto simp: butlast_append dest: in_set_butlastD)
  qed
qed

theorem split_list_spec_witness:
  "split_list [5, 2, 7, 8, 2, 9] 2 = [[5, 2], [7, 8, 2], [9]]
   \<and> concat (split_list [5, 2, 7, 8, 2, 9] 2) = [5, 2, 7, 8, 2, 9]
   \<and> last (last (split_list [5, 2, 7, 8, 2, 9] 2)) \<noteq> 2
   \<and> length (split_list [5, 2, 7, 8, 2, 9] 2) = 3"
  using split_list_spec[of "[5, 2, 7, 8, 2, 9]" 2] by (simp add: split_list_def)

lemma randint_less: "randint g high = Inr (k, g') \<Longrightarrow> int k < high"
proof -
  assume a: "randint g high = Inr (k, g')"
  then have h: "0 < high" by (auto simp: randint_def split: if_splits)
  obtain d g1 where dg: "next_draw g = (d, g1)" by (cases "next_draw g")
  have "k = d mod nat high" using a h dg by (simp add: randint_def)
  moreover have "d mod nat high < nat high" using h by simp
  ultimately show ?thesis using h by linarith
qed

lemma randint_ok: "0 < high \<Longrightarrow> \<exists>k g'. randint g high = Inr (k, g')"
  by (cases "next_draw g") (simp add: randint_def)

lemma shuffle_loop_mset: "i < length x \<Longrightarrow> mset (fst (shuffle_loop i x g)) = mset x"
proof (induction i arbitrary: x g)
  case 0
  then show ?case by simp
next
  case (Suc i)
  obtain d g' where dg: "next_draw g = (d, g')" by (cases "next_draw g")
  define j where "j = d mod Suc (Suc i)"
  define x' where "x' = x[Suc i := x ! j, j := x ! Suc i]"
  have j: "j < length x" using Suc.prems unfolding j_def
    by (meson Suc_lessI le_less_trans less_Suc_eq_le mod_less_divisor not_less_eq zero_less_Suc)
  have m: "mset x' = mset x" unfolding x'_def using mset_swap[OF j Suc.prems] by simp
  have l: "i < length x'" using Suc.prems by (simp add: x'_def)
  have "shuffle_loop (Suc i) x g = shuffle_loop i x' g'"
    by (simp add: dg j_def x'_def Let_def)
  then show ?case using Suc.IH[OF l, of g'] m by simp
qed

lemma shuffle_mset: "mset (fst (shuffle x g)) = mset x"
proof (cases x)
  case Nil
  then show ?thesis by (simp add: shuffle_def)
next
  case (Cons a xs)
  then show ?thesis using shuffle_loop_mset[of "length x - 1" x g] by (simp add: shuffle_def)
qed

lemma shuffle_props:
  assumes "shuffle x g = (y, g')"
  shows "mset y = mset x" "length y = length x" "set y = set x" "distinct y = distinct x"
proof -
  show m: "mset y = mset x" using shuffle_mset[of x g] assms by simp
  show "length y = length x" using m by (rule mset_eq_length)
  show "set y = set x" using m by (rule mset_eq_setD)
  show "distinct y = distinct x" using m by (rule mset_eq_imp_distinct_iff)
qed

lemma bounded_subset: "\<not> (\<exists>i \<in> set xs. (n::nat) \<le> i) \<Longrightarrow> set xs \<subseteq> {0..<n}"
proof
  fix x assume a: "\<not> (\<exists>i \<in> set xs. n \<le> i)" and x: "x \<in> set xs"
  then have "\<not> n \<le> x" by blast
  then show "x \<in> {0..<n}" by simp
qed

lemma np_delete_upt:
  "np_delete [0..<n] obj =
     (if \<exists>i \<in> set obj. n \<le> i then Inl IndexError
      else Inr (filter (\<lambda>k. k \<notin> set obj) [0..<n]))"
proof -
  have "enumerate 0 [0..<n] = map (\<lambda>k. (k, k)) [0..<n]"
    by (simp add: enumerate_eq_zip zip_same_conv_map)
  then show ?thesis
    by (simp add: np_delete_def list_ex_iff filter_map comp_def)
qed

lemma np_get_upt: "set obj \<subseteq> {0..<n} \<Longrightarrow> np_get [0..<n] obj = obj"
  unfolding np_get_def by (induction obj) auto

lemma np_put_Cons: "np_put arr (a # obj) (v # vals) = np_put (arr[a := v]) obj vals"
  by (simp add: np_put_def)

lemma np_put_length: "length (np_put arr obj vals) = length arr"
proof (induction obj arbitrary: arr vals)
  case Nil
  then show ?case by (simp add: np_put_def)
next
  case (Cons a obj)
  then show ?case by (cases vals) (simp_all add: np_put_def)
qed

lemma np_put_other: "i \<notin> set obj \<Longrightarrow> np_put arr obj vals ! i = arr ! i"
proof (induction obj arbitrary: arr vals)
  case Nil
  then show ?case by (simp add: np_put_def)
next
  case (Cons a obj)
  show ?case
  proof (cases vals)
    case Nil
    then show ?thesis by (simp add: np_put_def)
  next
    case (Cons v vs)
    then show ?thesis using Cons.IH[of "arr[a := v]" vs] Cons.prems by (simp add: np_put_Cons)
  qed
qed

lemma np_put_nth:
  "distinct obj \<Longrightarrow> length vals = length obj \<Longrightarrow> k < length obj \<Longrightarrow> obj ! k < length arr \<Longrightarrow>
   np_put arr obj vals ! (obj ! k) = vals ! k"
proof (induction obj arbitrary: arr vals k)
  case Nil
  then show ?case by simp
next
  case (Cons a obj)
  then obtain v vs where v: "vals = v # vs" by (cases vals) auto
  show ?case
  proof (cases k)
    case 0
    then show ?thesis using Cons.prems v np_put_other[of a obj "arr[a := v]" vs]
      by (simp add: np_put_Cons)
  next
    case (Suc k')
    then show ?thesis using Cons.prems v Cons.IH[of vs k' "arr[a := v]"]
      by (simp add: np_put_Cons)
  qed
qed

lemma fixed_shuffle_perm:
  assumes f: "set fixed \<subseteq> {0..<n}"
    and p: "mset perm = mset (filter (\<lambda>k. k \<notin> set fixed) [0..<n])"
  defines "t \<equiv> np_put [0..<n] (filter (\<lambda>k. k \<notin> set fixed) [0..<n]) perm"
  shows "length t = n" and "np_get t fixed = fixed" and "set t = {0..<n}" and "distinct t"
proof -
  let ?S = "filter (\<lambda>k. k \<notin> set fixed) [0..<n]"
  have dS: "distinct ?S" by simp
  have lp: "length perm = length ?S" using p by (rule mset_eq_length)
  have sp: "set perm = set ?S" using p by (rule mset_eq_setD)
  show len: "length t = n" by (simp add: t_def np_put_length)
  have fixd: "\<And>i. i \<in> set fixed \<Longrightarrow> t ! i = i"
  proof -
    fix i assume i: "i \<in> set fixed"
    then have "i \<notin> set ?S" by simp
    then have "t ! i = [0..<n] ! i" unfolding t_def by (rule np_put_other)
    then show "t ! i = i" using f i by auto
  qed
  show "np_get t fixed = fixed" unfolding np_get_def using fixd by (simp add: map_idI)
  have moved: "\<And>k. k < length ?S \<Longrightarrow> t ! (?S ! k) = perm ! k"
  proof -
    fix k assume k: "k < length ?S"
    then have "?S ! k \<in> set ?S" by (rule nth_mem)
    then have "?S ! k < length [0..<n]" by simp
    then show "t ! (?S ! k) = perm ! k" unfolding t_def using np_put_nth[OF dS lp k] by simp
  qed
  have sub: "set t \<subseteq> {0..<n}"
  proof
    fix v assume "v \<in> set t"
    then obtain i where i: "i < n" "t ! i = v" using len by (auto simp: in_set_conv_nth)
    show "v \<in> {0..<n}"
    proof (cases "i \<in> set fixed")
      case True
      then show ?thesis using fixd i by auto
    next
      case False
      then have "i \<in> set ?S" using i by simp
      then obtain k where k: "k < length ?S" "?S ! k = i" by (metis in_set_conv_nth)
      then have "v = perm ! k" using moved i by auto
      then have "v \<in> set perm" using k lp by simp
      then show ?thesis using sp by auto
    qed
  qed
  have sup: "{0..<n} \<subseteq> set t"
  proof
    fix v assume v: "v \<in> {0..<n}"
    show "v \<in> set t"
    proof (cases "v \<in> set fixed")
      case True
      then have "t ! v = v" by (rule fixd)
      then show ?thesis using v len by (metis atLeastLessThan_iff nth_mem)
    next
      case False
      then have "v \<in> set perm" using v sp by simp
      then obtain k where k: "k < length perm" "perm ! k = v" by (auto simp: in_set_conv_nth)
      then have kk: "k < length ?S" using lp by simp
      have "?S ! k \<in> set ?S" using kk by (rule nth_mem)
      then have b: "?S ! k < n" by simp
      have "t ! (?S ! k) = v" using moved[OF kk] k by simp
      then show ?thesis using b len by (metis nth_mem)
    qed
  qed
  show st: "set t = {0..<n}" using sub sup by blast
  show "distinct t" using st len by (simp add: card_distinct)
qed


lemma place_loop_enum:
  assumes "\<forall>p \<in> set xs. p < length out" and "k + length xs \<le> length sents" and "distinct xs"
  shows "\<exists>out'. place_loop (enumerate k xs) sents out = Inr out' \<and> length out' = length out
           \<and> (\<forall>idx < length xs. out' ! (xs ! idx) = Some (sents ! (k + idx)))
           \<and> (\<forall>p. p \<notin> set xs \<longrightarrow> out' ! p = out ! p)"
  using assms
proof (induction xs arbitrary: k out)
  case Nil
  then show ?case by simp
next
  case (Cons a xs)
  let ?out1 = "out[a := Some (sents ! k)]"
  have 1: "\<forall>p \<in> set xs. p < length ?out1" using Cons.prems by simp
  have 2: "Suc k + length xs \<le> length sents" using Cons.prems by simp
  have 3: "distinct xs" using Cons.prems by simp
  from Cons.IH[OF 1 2 3] obtain out' where
    o: "place_loop (enumerate (Suc k) xs) sents ?out1 = Inr out'" "length out' = length ?out1"
       "\<forall>idx < length xs. out' ! (xs ! idx) = Some (sents ! (Suc k + idx))"
       "\<forall>p. p \<notin> set xs \<longrightarrow> out' ! p = ?out1 ! p" by blast
  have step: "place_loop (enumerate k (a # xs)) sents out = Inr out'"
    using Cons.prems o(1) by simp
  have a: "out' ! a = Some (sents ! k)" using o(4) Cons.prems by simp
  have nth: "\<forall>idx < length (a # xs). out' ! ((a # xs) ! idx) = Some (sents ! (k + idx))"
  proof (intro allI impI)
    fix idx assume "idx < length (a # xs)"
    then show "out' ! ((a # xs) ! idx) = Some (sents ! (k + idx))"
      using a o(3) by (cases idx) auto
  qed
  have oth: "\<forall>p. p \<notin> set (a # xs) \<longrightarrow> out' ! p = out ! p" using o(4) by auto
  show ?case using step o(2) nth oth by simp
qed

lemma truncate_loop_prefix:
  "\<exists>k \<le> length sents. truncate_loop sents b acc = acc @ take k sents"
proof (induction sents arbitrary: acc)
  case Nil
  then show ?case by simp
next
  case (Cons s sents)
  show ?case
  proof (cases "int (sum_list (map length acc) + length s) \<le> b")
    case True
    from Cons.IH[of "acc @ [s]"] obtain k where
      "k \<le> length sents" "truncate_loop sents b (acc @ [s]) = (acc @ [s]) @ take k sents" by blast
    then show ?thesis using True by (intro exI[of _ "Suc k"]) simp
  next
    case False
    then show ?thesis by (intro exI[of _ 0]) simp
  qed
qed

lemma truncate_loop_take:
  "truncate_loop sents b [] = take (length (truncate_loop sents b [])) sents"
  using truncate_loop_prefix[of sents b "[]"] by auto

lemma truncate_loop_length: "length (truncate_loop sents b []) \<le> length sents"
  using truncate_loop_prefix[of sents b "[]"] by auto

lemma py_int_floor: "0 \<le> r \<Longrightarrow> py_int r = \<lfloor>r\<rfloor>"
  by (simp add: py_int_def)

lemma floor_rat_numeral_div: "\<lfloor>numeral a / numeral b :: rat\<rfloor> = numeral a div numeral b"
  using floor_divide_of_int_eq[of "numeral a" "numeral b", where ?'a = rat] by simp

subsection \<open>Binary64 products\<close>

text \<open>
  The exponent search finds the binade of every positive number below \<open>2^2101\<close>, a bound
  no product of a length and a finite float reaches.
\<close>

lemma exponent_up_spec:
  "2 powi e \<le> x \<Longrightarrow> x < 2 powi (e + int k + 1)
   \<Longrightarrow> 2 powi (exponent_up k x e) \<le> x \<and> x < 2 powi (exponent_up k x e + 1)"
proof (induction k arbitrary: e)
  case 0
  then show ?case by simp
next
  case (Suc k)
  show ?case
  proof (cases "2 powi (e + 1) \<le> x")
    case True
    have "x < 2 powi (e + 1 + int k + 1)" using Suc.prems(2) by (simp add: add.commute add.left_commute)
    from Suc.IH [OF True this] True show ?thesis by simp
  next
    case False
    then show ?thesis using Suc.prems(1) by simp
  qed
qed

lemma exponent_down_spec:
  "x < 2 powi (e + 1)
   \<Longrightarrow> x < 2 powi (exponent_down k x e + 1)
       \<and> (2 powi (exponent_down k x e) \<le> x \<or> exponent_down k x e = e - int k)
       \<and> e - int k \<le> exponent_down k x e"
proof (induction k arbitrary: e)
  case 0
  then show ?case by simp
next
  case (Suc k)
  show ?case
  proof (cases "x < 2 powi e")
    case True
    then have "x < 2 powi (e - 1 + 1)" by simp
    from Suc.IH [OF this] True show ?thesis by auto
  next
    case False
    then show ?thesis using Suc.prems by simp
  qed
qed

lemma float_exponent_spec:
  assumes "0 < x" and "x < 2 powi 2101"
  shows "- 1022 \<le> float_exponent x" and "x < 2 powi (float_exponent x + 1)"
    and "2 powi (float_exponent x) \<le> x \<or> float_exponent x = - 1022"
proof -
  show "- 1022 \<le> float_exponent x"
  proof (cases "1 \<le> x")
    case True
    have "(2::rat) powi 0 \<le> x" using True by simp
    moreover have "x < 2 powi (0 + int 2100 + 1)" using assms(2) by simp
    ultimately have "2 powi (exponent_up 2100 x 0) \<le> x \<and> x < 2 powi (exponent_up 2100 x 0 + 1)"
      by (rule exponent_up_spec)
    then have "(2::rat) powi 0 < 2 powi (exponent_up 2100 x 0 + 1)" using True by simp
    then have "0 < exponent_up 2100 x 0 + 1"
      by (metis power_int_strict_increasing not_less power_int_increasing one_le_numeral less_le_not_le linorder_not_le one_less_numeral_iff semiring_norm(76))
    then show ?thesis using True by (simp add: float_exponent_def)
  next
    case False
    then have "x < 2 powi (0 + 1)" by simp
    from exponent_down_spec [OF this, of 1022] False show ?thesis by (simp add: float_exponent_def)
  qed
  show "x < 2 powi (float_exponent x + 1)"
  proof (cases "1 \<le> x")
    case True
    have "(2::rat) powi 0 \<le> x" using True by simp
    moreover have "x < 2 powi (0 + int 2100 + 1)" using assms(2) by simp
    ultimately have "2 powi (exponent_up 2100 x 0) \<le> x \<and> x < 2 powi (exponent_up 2100 x 0 + 1)"
      by (rule exponent_up_spec)
    then show ?thesis using True by (simp add: float_exponent_def)
  next
    case False
    then have "x < 2 powi (0 + 1)" by simp
    from exponent_down_spec [OF this, of 1022] False show ?thesis by (simp add: float_exponent_def)
  qed
  show "2 powi (float_exponent x) \<le> x \<or> float_exponent x = - 1022"
  proof (cases "1 \<le> x")
    case True
    have "(2::rat) powi 0 \<le> x" using True by simp
    moreover have "x < 2 powi (0 + int 2100 + 1)" using assms(2) by simp
    ultimately have "2 powi (exponent_up 2100 x 0) \<le> x \<and> x < 2 powi (exponent_up 2100 x 0 + 1)"
      by (rule exponent_up_spec)
    then show ?thesis using True by (simp add: float_exponent_def)
  next
    case False
    then have "x < 2 powi (0 + 1)" by simp
    from exponent_down_spec [OF this, of 1022] False show ?thesis by (simp add: float_exponent_def)
  qed
qed

lemma round_half_even_le: "of_int (round_half_even m) \<le> m + 1 / 2"
  unfolding round_half_even_def Let_def by (auto simp: not_less) linarith+

lemma round_half_even_ge: "m - 1 / 2 \<le> of_int (round_half_even m)"
  unfolding round_half_even_def Let_def by (auto simp: not_less) linarith+

lemma round_half_even_of_int: "round_half_even (of_int k) = k"
  by (simp add: round_half_even_def)

lemma round_half_even_nonneg: "0 \<le> m \<Longrightarrow> 0 \<le> round_half_even m"
  unfolding round_half_even_def Let_def by (auto simp: not_less)

lemma round_half_even_le_int:
  assumes "m \<le> of_int N"
  shows "round_half_even m \<le> N"
proof (cases "m = of_int N")
  case True
  then show ?thesis by (simp add: round_half_even_of_int)
next
  case False
  then have "m < of_int N" using assms by simp
  then have "\<lfloor>m\<rfloor> < N" by (simp add: floor_less_iff)
  moreover have "round_half_even m \<le> \<lfloor>m\<rfloor> + 1" by (simp add: round_half_even_def Let_def)
  ultimately show ?thesis by simp
qed

lemma float_round_pos:
  assumes "0 < x"
  shows "float_round x = of_int (round_half_even (x / 2 powi (float_exponent x - 52))) * 2 powi (float_exponent x - 52)"
  using assms by (simp add: float_round_def Let_def)

lemma float_round_upper:
  assumes "0 < x"
  shows "float_round x \<le> x + 2 powi (float_exponent x - 53)"
proof -
  let ?q = "(2::rat) powi (float_exponent x - 52)"
  have q: "0 < ?q" by simp
  have "of_int (round_half_even (x / ?q)) \<le> x / ?q + 1 / 2" by (rule round_half_even_le)
  then have "of_int (round_half_even (x / ?q)) * ?q \<le> (x / ?q + 1 / 2) * ?q"
    using q by (simp only: mult_le_cancel_right_pos)
  also have "\<dots> = x + ?q / 2" using q by (simp add: field_simps)
  also have "?q / 2 = 2 powi (float_exponent x - 53)"
    using power_int_diff [of "2::rat" "float_exponent x - 52" 1] by simp
  finally show ?thesis using assms by (simp add: float_round_pos)
qed

lemma float_round_nonneg: "0 \<le> x \<Longrightarrow> 0 \<le> float_round x"
  by (cases "x = 0") (simp_all add: float_round_def Let_def round_half_even_nonneg)



lemma powi2_less_cancel: "(2::rat) powi a < 2 powi b \<Longrightarrow> a < b"
proof (rule ccontr)
  assume l: "(2::rat) powi a < 2 powi b" and "\<not> a < b"
  then have "b \<le> a" by simp
  then have "(2::rat) powi b \<le> 2 powi a" by (rule power_int_increasing) simp
  with l show False by simp
qed

lemma float_round_of_nat:
  assumes "n < 2 ^ 53"
  shows "float_round (of_nat n) = of_nat n"
proof (cases "n = 0")
  case True
  then show ?thesis by (simp add: float_round_def)
next
  case False
  let ?x = "of_nat n :: rat"
  let ?e = "float_exponent ?x"
  have pos: "0 < ?x" and one: "1 \<le> ?x" using False by simp_all
  have "?x < of_nat (2 ^ 53)" using assms by (simp only: of_nat_less_iff)
  then have lt53: "?x < 2 powi 53" by simp
  have "(2::rat) powi 53 \<le> 2 powi 2101" by (rule power_int_increasing) simp_all
  with lt53 have big: "?x < 2 powi 2101" by simp
  have up: "?x < 2 powi (?e + 1)" by (rule float_exponent_spec(2) [OF pos big])
  have "(2::rat) powi 0 < 2 powi (?e + 1)" using one up by simp
  then have e0: "0 \<le> ?e" using powi2_less_cancel [of 0 "?e + 1"] by simp
  then have lo: "2 powi ?e \<le> ?x" using float_exponent_spec(3) [OF pos big] by auto
  then have "(2::rat) powi ?e < 2 powi 53" using lt53 by simp
  then have e52: "?e \<le> 52" using powi2_less_cancel [of ?e 53] by simp
  have q: "?x / 2 powi (?e - 52) = ?x * 2 powi (52 - ?e)"
    using power_int_minus [of "2::rat" "52 - ?e"] by (simp add: field_simps)
  have "(2::rat) powi (52 - ?e) = 2 ^ nat (52 - ?e)" using e52 by (simp add: power_int_def)
  then have "?x / 2 powi (?e - 52) = of_int (int n * 2 ^ nat (52 - ?e))" using q by simp
  then have "round_half_even (?x / 2 powi (?e - 52)) = int n * 2 ^ nat (52 - ?e)"
    by (simp only: round_half_even_of_int)
  then have "float_round ?x = of_int (int n * 2 ^ nat (52 - ?e)) * 2 powi (?e - 52)"
    using pos by (simp only: float_round_pos)
  also have "\<dots> = ?x * (2 powi (52 - ?e) * 2 powi (?e - 52))"
    using \<open>(2::rat) powi (52 - ?e) = 2 ^ nat (52 - ?e)\<close> by simp
  also have "(2::rat) powi (52 - ?e) * 2 powi (?e - 52) = 1"
    using power_int_add [of "2::rat" "52 - ?e" "?e - 52"] by simp
  finally show ?thesis by simp
qed

lemma float_below_one:
  assumes "0 \<le> fr" and "fr < 1" and "float_round fr = fr"
  shows "fr \<le> 1 - 1 / 2 ^ 53"
proof (cases "fr = 0")
  case True
  then show ?thesis by simp
next
  case False
  let ?e = "float_exponent fr"
  let ?q = "(2::rat) powi (?e - 52)"
  let ?r = "round_half_even (fr / ?q)"
  have pos: "0 < fr" using False assms(1) by simp
  have "(1::rat) \<le> 2 powi 2101" by (rule one_le_power_int) simp_all
  then have big: "fr < 2 powi 2101" using assms(2) by simp
  have up: "fr < 2 powi (?e + 1)" by (rule float_exponent_spec(2) [OF pos big])
  have "?e < 0"
  proof (cases "2 powi ?e \<le> fr")
    case True
    then have "(2::rat) powi ?e < 2 powi 0" using assms(2) by simp
    then show ?thesis by (rule powi2_less_cancel)
  next
    case False
    then show ?thesis using float_exponent_spec(3) [OF pos big] by simp
  qed
  have q: "0 < ?q" by simp
  have fr: "fr = of_int ?r * ?q" using assms(3) pos by (simp only: float_round_pos)
  have "(2::rat) powi (?e + 1) = 2 powi 53 * ?q"
    using power_int_add [of "2::rat" 53 "?e - 52"] by (simp add: add.commute)
  then have "of_int ?r * ?q < 2 powi 53 * ?q" using up fr by simp
  then have "(of_int ?r :: rat) < 2 powi 53" using q by (simp only: mult_less_cancel_right_pos)
  then have "(of_int ?r :: rat) < of_int (2 ^ 53)" by simp
  then have "?r < 2 ^ 53" by (simp only: of_int_less_iff)
  then have "?r \<le> 2 ^ 53 - 1" by simp
  then have "(of_int ?r :: rat) \<le> of_int (2 ^ 53 - 1)" by (simp only: of_int_le_iff)
  then have "of_int ?r * ?q \<le> of_int (2 ^ 53 - 1) * ?q" using q by (simp only: mult_le_cancel_right_pos)
  moreover have "?q \<le> 2 powi (- 53)" using \<open>?e < 0\<close> by (intro power_int_increasing) simp_all
  then have "of_int (2 ^ 53 - 1) * ?q \<le> of_int (2 ^ 53 - 1) * 2 powi (- 53)"
    by (intro mult_left_mono) simp_all
  moreover have "of_int (2 ^ 53 - 1) * (2::rat) powi (- 53) = 1 - 1 / 2 ^ 53" by simp
  ultimately show ?thesis using fr by simp
qed

lemma product_less_aux:
  fixes n fr c pe :: rat
  assumes "0 < n" and "0 < c" and "fr \<le> 1 - 1 / c" and "pe < n"
  shows "n * fr < n" and "n * fr + pe / c < n"
proof -
  have "n * fr \<le> n * (1 - 1 / c)" using assms(1,3) by (simp only: mult_le_cancel_left_pos)
  also have "\<dots> = n - n / c" by (simp add: right_diff_distrib)
  finally have le: "n * fr \<le> n - n / c" .
  have "0 < n / c" using assms(1,2) by simp
  with le show "n * fr < n" by simp
  have "pe / c < n / c" using assms(2,4) by (simp only: divide_strict_right_mono)
  with le show "n * fr + pe / c < n" by simp
qed

lemma float_round_product_less:
  assumes "0 < n" and "n < 2 ^ 53" and "0 < fr" and "fr \<le> 1 - 1 / 2 ^ 53"
  shows "float_round (of_nat n * fr) < of_nat n"
proof -
  let ?n = "of_nat n :: rat"
  let ?x = "?n * fr"
  let ?e = "float_exponent ?x"
  have npos: "0 < ?n" using assms(1) by simp
  have c: "(0::rat) < 2 ^ 53" by simp
  have pos: "0 < ?x" using npos assms(3) by simp
  have xn: "?x < ?n" by (rule product_less_aux(1) [OF npos c assms(4) npos])
  have "?n < of_nat (2 ^ 53)" using assms(2) by (simp only: of_nat_less_iff)
  then have "?n < 2 powi 53" by simp
  moreover have "(2::rat) powi 53 \<le> 2 powi 2101" by (rule power_int_increasing) simp_all
  ultimately have big: "?x < 2 powi 2101" using xn by simp
  have en: "2 powi ?e < ?n"
  proof (cases "2 powi ?e \<le> ?x")
    case True
    then show ?thesis using xn by simp
  next
    case False
    then have "?e = - 1022" using float_exponent_spec(3) [OF pos big] by simp
    moreover have "(2::rat) powi (- 1022) < 2 powi 0" by (rule power_int_strict_increasing) simp_all
    moreover have "1 \<le> ?n" using assms(1) by simp
    ultimately show ?thesis by simp
  qed
  have "(2::rat) powi (?e - 53) = 2 powi ?e / 2 powi 53" by (rule power_int_diff) simp
  also have "\<dots> = 2 powi ?e / 2 ^ 53" by (simp only: power_int_numeral)
  finally have "?x + 2 powi (?e - 53) = ?x + 2 powi ?e / 2 ^ 53" by (simp only:)
  also have "\<dots> < ?n" by (rule product_less_aux(2) [OF npos c assms(4) en])
  finally show ?thesis using float_round_upper [OF pos] by (simp only: less_le_trans le_less_trans)
qed

lemma py_int_mul_bounds:
  assumes "0 \<le> fr" and "fr < 1" and "float_round fr = fr" and "n < 2 ^ 53"
  shows "\<exists>lf. py_int_mul n fr = Inr lf \<and> 0 \<le> lf \<and> (0 < n \<longrightarrow> lf < int n) \<and> (n = 0 \<longrightarrow> lf = 0)"
proof -
  let ?y = "float_round (of_nat n * fr)"
  have a: "float_round (of_nat n) = of_nat n" by (rule float_round_of_nat [OF assms(4)])
  have "(of_nat n :: rat) < of_nat (2 ^ 53)" using assms(4) by (simp only: of_nat_less_iff)
  then have n53: "(of_nat n :: rat) < 2 powi 53" by simp
  have p: "(2::rat) powi 53 < 2 powi 1024" by (rule power_int_strict_increasing) simp_all
  have y0: "0 \<le> ?y" using assms(1) by (intro float_round_nonneg) simp
  have yn: "?y < of_nat n" if "0 < n"
  proof (cases "fr = 0")
    case True
    then show ?thesis using that by (simp add: float_round_def)
  next
    case False
    then have "0 < fr" using assms(1) by simp
    moreover have "fr \<le> 1 - 1 / 2 ^ 53" by (rule float_below_one [OF assms(1-3)])
    ultimately show ?thesis using that assms(4) by (intro float_round_product_less)
  qed
  have yz: "?y = 0" if "n = 0" using that by (simp add: float_round_def)
  have ylt: "?y < 2 powi 1024"
  proof (cases "n = 0")
    case True
    then show ?thesis using yz by simp
  next
    case False
    then have "?y < of_nat n" using yn by simp
    then show ?thesis using n53 p by simp
  qed
  have "py_int_mul n fr = Inr (py_int ?y)"
    using a n53 p ylt y0 by (simp add: py_int_mul_def Let_def not_le)
  moreover have "py_int ?y = \<lfloor>?y\<rfloor>" using y0 by (simp add: py_int_def)
  moreover have "0 \<le> \<lfloor>?y\<rfloor>" using y0 by simp
  moreover have "\<lfloor>?y\<rfloor> < int n" if "0 < n"
    using yn [OF that] by (simp add: floor_less_iff)
  moreover have "\<lfloor>?y\<rfloor> = 0" if "n = 0" using yz [OF that] by simp
  ultimately show ?thesis by simp
qed

text \<open>Evaluation of the binary64 operations on numerals.\<close>

lemma exponent_up_numeral:
  "exponent_up (numeral k) x e =
     (if 2 powi (e + 1) \<le> x then exponent_up (pred_numeral k) x (e + 1) else e)"
  by (simp add: numeral_eq_Suc)

lemma exponent_down_numeral:
  "exponent_down (numeral k) x e =
     (if x < 2 powi e then exponent_down (pred_numeral k) x (e - 1) else e)"
  by (simp add: numeral_eq_Suc)

lemmas eval_float = py_int_mul_def float_round_def float_exponent_def round_half_even_def py_int_def
  exponent_up_numeral exponent_down_numeral floor_rat_numeral_div Let_def

text \<open>
  Products whose binary64 value and exact value truncate differently, the floats being
  the roundings of their decimal literals. The float \<^verbatim>\<open>0.7\<close> is below seven tenths and
  ten times it is below 7, but the binary64 product is 7.0 and \<^verbatim>\<open>int(10 * 0.7)\<close> is 7.
  The decimal product of 50 and 0.58 is 29, but the float \<^verbatim>\<open>0.58\<close> is below it and
  \<^verbatim>\<open>int(50 * 0.58)\<close> is 28. \<^verbatim>\<open>int(5 * 0.6)\<close> is 3 and \<^verbatim>\<open>int(3 * 0.6)\<close> is 1.
\<close>

lemma py_int_mul_examples:
  "py_int_mul 10 (float_round (7 / 10)) = Inr 7"
  "py_int_mul 50 (float_round (58 / 100)) = Inr 28"
  "py_int_mul 5 (float_round (6 / 10)) = Inr 3"
  "py_int_mul 3 (float_round (6 / 10)) = Inr 1"
  "10 * float_round (7 / 10) < 7" "float_round (58 / 100) < 58 / 100"
  by (simp_all add: eval_float)

text \<open>
  The corruption branches compare a draw of \<^verbatim>\<open>uniform()\<close> with the float literals
  \<^verbatim>\<open>0.8\<close> and \<^verbatim>\<open>0.5\<close>, written \<open>8 / 10\<close> and \<open>5 / 10\<close> in \<open>corrupt_sent\<close>. The float
  \<^verbatim>\<open>0.5\<close> is one half, and a 53-bit fraction is below the float \<^verbatim>\<open>0.8\<close> exactly when it
  is below \<open>8 / 10\<close>.
\<close>

lemma float_round_thresholds:
  "float_round (8 / 10) = 3602879701896397 / 4503599627370496" "float_round (5 / 10) = 5 / 10"
  by (simp_all add: eval_float)

lemma uniform_below_float_threshold:
  "fst (uniform g) < 8 / 10 \<longleftrightarrow> fst (uniform g) < float_round (8 / 10)"
proof -
  obtain d g' where n: "next_draw g = (d, g')" by (cases "next_draw g")
  let ?k = "d mod 2 ^ 53"
  have u: "fst (uniform g) = of_nat ?k / 2 ^ 53" using n by (simp add: uniform_def)
  have a: "(of_nat ?k / 2 ^ 53 < (8 / 10 :: rat))
            = (of_nat (?k * 10) < (of_nat 72057594037927936 :: rat))"
    by (simp add: field_simps)
  have b: "(of_nat ?k / 2 ^ 53 < (3602879701896397 / 4503599627370496 :: rat))
            = (of_nat ?k < (of_nat 7205759403792794 :: rat))"
    by (simp add: field_simps)
  have "(k * 10 < 72057594037927936) = (k < 7205759403792794)" for k :: nat by arith
  then have "(?k * 10 < 72057594037927936) = (?k < 7205759403792794)" .
  then have "(of_nat (?k * 10) < (of_nat 72057594037927936 :: rat))
               = (of_nat ?k < (of_nat 7205759403792794 :: rat))"
    by (simp only: of_nat_less_iff)
  then show ?thesis using a b u by (simp only: float_round_thresholds)
qed

text \<open>What a successful call of shuffle_sents has computed.\<close>

lemma shuffle_sents_Inr:
  assumes r: "shuffle_sents fr mtl sents g = Inr (sh, order, g')"
  defines "n \<equiv> length (truncate_loop sents mtl [])"
  shows "length order = n" and "distinct order" and "set order = {0..<n}"
    and "length sh = n" and "\<forall>idx < n. sh ! (order ! idx) = Some (sents ! idx)"
    and "fr \<noteq> 0 \<Longrightarrow> \<exists>lf start g1. py_int_mul n fr = Inr lf
            \<and> randint g (int n - lf) = Inr (start, g1)
            \<and> (\<forall>i. start \<le> i \<and> i < start + nat lf \<longrightarrow> order ! i = i)"
proof -
  from r have pl: "place_loop (enumerate 0 order) sents (replicate n None) = Inr sh"
    by (auto simp: shuffle_sents_def Let_def n_def split: if_splits sum.splits prod.splits)
  from r have ord: "(fr = 0 \<and> shuffle [0..<n] g = (order, g')) \<or>
     (fr \<noteq> 0 \<and> (\<exists>lf start g1 S perm. py_int_mul n fr = Inr lf
        \<and> randint g (int n - lf) = Inr (start, g1)
        \<and> np_delete [0..<n] [start..<start + nat lf] = Inr S
        \<and> shuffle (np_get [0..<n] S) g1 = (perm, g')
        \<and> order = np_put [0..<n] S perm))"
    by (auto simp: shuffle_sents_def Let_def n_def split: if_splits sum.splits prod.splits)
  have main: "length order = n \<and> distinct order \<and> set order = {0..<n} \<and>
     (fr \<noteq> 0 \<longrightarrow> (\<exists>lf start g1. py_int_mul n fr = Inr lf
            \<and> randint g (int n - lf) = Inr (start, g1)
            \<and> (\<forall>i. start \<le> i \<and> i < start + nat lf \<longrightarrow> order ! i = i)))"
    using ord
  proof
    assume a: "fr = 0 \<and> shuffle [0..<n] g = (order, g')"
    then show ?thesis using shuffle_props[of "[0..<n]" g order g'] by auto
  next
    assume "fr \<noteq> 0 \<and> (\<exists>lf start g1 S perm. py_int_mul n fr = Inr lf
        \<and> randint g (int n - lf) = Inr (start, g1)
        \<and> np_delete [0..<n] [start..<start + nat lf] = Inr S
        \<and> shuffle (np_get [0..<n] S) g1 = (perm, g')
        \<and> order = np_put [0..<n] S perm)"
    then obtain lf start g1 S perm where nz: "fr \<noteq> 0"
      and pm: "py_int_mul n fr = Inr lf"
      and ri: "randint g (int n - lf) = Inr (start, g1)"
      and nd: "np_delete [0..<n] [start..<start + nat lf] = Inr S"
      and sf: "shuffle (np_get [0..<n] S) g1 = (perm, g')"
      and o: "order = np_put [0..<n] S perm" by blast
    let ?fixed = "[start..<start + nat lf]"
    have nb: "\<not> (\<exists>i \<in> set ?fixed. n \<le> i)"
    proof
      assume "\<exists>i \<in> set ?fixed. n \<le> i"
      then have "np_delete [0..<n] ?fixed = Inl IndexError" by (simp only: np_delete_upt if_True)
      then show False using nd by simp
    qed
    then have S: "S = filter (\<lambda>k. k \<notin> set ?fixed) [0..<n]"
      using nd by (simp only: np_delete_upt if_False sum.inject)
    have fb: "set ?fixed \<subseteq> {0..<n}" using nb by (rule bounded_subset)
    have "set S \<subseteq> {0..<n}" using S by auto
    then have gS: "np_get [0..<n] S = S" by (rule np_get_upt)
    have mp: "mset perm = mset (filter (\<lambda>k. k \<notin> set ?fixed) [0..<n])"
      using shuffle_props(1)[OF sf] gS S by simp
    note P = fixed_shuffle_perm[OF fb mp]
    have fx: "\<forall>i. start \<le> i \<and> i < start + nat lf \<longrightarrow> order ! i = i"
    proof (intro allI impI)
      fix i assume i: "start \<le> i \<and> i < start + nat lf"
      then have "i \<in> set ?fixed" by simp
      then have "i \<notin> set S" using S by simp
      then have "order ! i = [0..<n] ! i" unfolding o by (rule np_put_other)
      moreover have "i < n" using fb i by auto
      ultimately show "order ! i = i" by simp
    qed
    show ?thesis using P(1,3,4) fx ri pm nz unfolding o S by blast
  qed
  then show "length order = n" "distinct order" "set order = {0..<n}" by auto
  show "fr \<noteq> 0 \<Longrightarrow> \<exists>lf start g1. py_int_mul n fr = Inr lf
            \<and> randint g (int n - lf) = Inr (start, g1)
            \<and> (\<forall>i. start \<le> i \<and> i < start + nat lf \<longrightarrow> order ! i = i)" using main by blast
  have b: "\<forall>p \<in> set order. p < length (replicate n (None :: int list option))" using main by auto
  have l: "0 + length order \<le> length sents" using main truncate_loop_length[of sents mtl] by (simp add: n_def)
  from place_loop_enum[OF b l] main pl
  show "length sh = n" "\<forall>idx < n. sh ! (order ! idx) = Some (sents ! idx)" by auto
qed

lemma place_loop_perm:
  assumes d: "distinct order" and so: "set order = {0..<n}"
    and n: "n = length (truncate_loop sents mtl [])"
  shows "\<exists>sh. place_loop (enumerate 0 order) sents (replicate n None) = Inr (sh :: int list option list)"
proof -
  have lo: "length order = n" using d so by (metis card_atLeastLessThan diff_zero distinct_card)
  have b: "\<forall>p \<in> set order. p < length (replicate n (None :: int list option))" using so by auto
  have l: "0 + length order \<le> length sents" using lo truncate_loop_length[of sents mtl] n by simp
  from place_loop_enum[OF b l d] show ?thesis by blast
qed

lemma shuffle_sents_returns:
  assumes fr: "0 \<le> fr" "fr < 1" "float_round fr = fr"
    and n: "n = length (truncate_loop sents mtl [])"
    and n53: "n < 2 ^ 53"
    and c: "fr = 0 \<or> 0 < n"
  shows "\<exists>sh order g'. shuffle_sents fr mtl sents g = Inr (sh, order, g')"
proof (cases "fr = 0")
  case True
  obtain order g' where s: "shuffle [0..<n] g = (order, g')" by (cases "shuffle [0..<n] g")
  have "distinct order" "set order = {0..<n}" using shuffle_props[OF s] by auto
  from place_loop_perm[OF this n] obtain sh where
    "place_loop (enumerate 0 order) sents (replicate n None) = Inr sh" by blast
  then have "shuffle_sents fr mtl sents g = Inr (sh, order, g')"
    using True s by (simp add: shuffle_sents_def Let_def n[symmetric])
  then show ?thesis by blast
next
  case False
  have n0: "0 < n" using False c by simp
  from py_int_mul_bounds [OF fr n53] n0 obtain lf where
    pm: "py_int_mul n fr = Inr lf" and lf: "0 \<le> lf" "lf < int n" by auto
  then obtain start g1 where ri: "randint g (int n - lf) = Inr (start, g1)"
    using randint_ok[of "int n - lf" g] by auto
  have "int start < int n - lf" using ri by (rule randint_less)
  then have sb: "start + nat lf \<le> n" using lf by linarith
  let ?fixed = "[start..<start + nat lf]"
  let ?S = "filter (\<lambda>k. k \<notin> set ?fixed) [0..<n]"
  have fb: "set ?fixed \<subseteq> {0..<n}" using sb by auto
  have "\<not> (\<exists>i \<in> set ?fixed. n \<le> i)" using sb by auto
  then have nd: "np_delete [0..<n] ?fixed = Inr ?S" by (simp only: np_delete_upt if_False)
  have gS: "np_get [0..<n] ?S = ?S" by (rule np_get_upt) auto
  obtain perm g2 where s: "shuffle ?S g1 = (perm, g2)" by (cases "shuffle ?S g1")
  have mp: "mset perm = mset ?S" using shuffle_props(1)[OF s] .
  note P = fixed_shuffle_perm[OF fb mp]
  from place_loop_perm[OF P(4) P(3) n] obtain sh where
    pl: "place_loop (enumerate 0 (np_put [0..<n] ?S perm)) sents (replicate n None) = Inr sh" by blast
  have "shuffle_sents fr mtl sents g = Inr (sh, np_put [0..<n] ?S perm, g2)"
    unfolding shuffle_sents_def Let_def n[symmetric]
    using False by (simp only: pm ri nd gS s P(2) pl sum.case prod.case if_False if_True simp_thms)
  then show ?thesis by blast
qed

lemma shuffle_sents_no_sentence:
  assumes "0 < fr" "length (truncate_loop sents mtl []) = 0"
  shows "shuffle_sents fr mtl sents g = Inl ValueError"
  using assms
  by (simp add: shuffle_sents_def Let_def randint_def py_int_mul_def float_round_def py_int_def)

subsection \<open>The shuffler\<close>

text \<open>
  C2. \<open>shuffle_sents\<close> is the shuffler of the permutation path and \<open>n\<close> the number of
  sentences it retains (fewer than \<open>2^53\<close>, so that the length is a float). For every
  document, every generator and every float \<open>fix_ratio\<close> in \<open>[0, 1)\<close> the call returns,
  unless \<open>fix_ratio > 0\<close> and no sentence is retained, when drawing the window start raises
  ValueError and no order is computed. The returned \<open>target_order\<close> has length \<open>n\<close>, no
  repeated entry and exactly the entries \<open>0..n-1\<close>: it is a bijection on the retained
  positions. When \<open>fix_ratio > 0\<close>, every position \<open>i\<close> of the window that starts at the
  drawn offset and has \<open>len_fixed\<close> positions, the truncated binary64 product
  \<open>int(n * fix_ratio)\<close>, satisfies \<open>target_order[i] = i\<close>.
\<close>

theorem shuffle_sents_target_order_permutation:
  assumes "0 \<le> fr" and "fr < 1" and "float_round fr = fr"
    and "n = length (truncate_loop sents mtl [])" and "n < 2 ^ 53"
  shows "(0 < fr \<and> n = 0 \<longrightarrow> shuffle_sents fr mtl sents g = Inl ValueError)
       \<and> (fr = 0 \<or> 0 < n \<longrightarrow>
            (\<exists>sh order g'. shuffle_sents fr mtl sents g = Inr (sh, order, g')
               \<and> length order = n \<and> distinct order \<and> set order = {0..<n}
               \<and> (0 < fr \<longrightarrow>
                    (\<exists>lf start g1. py_int_mul n fr = Inr lf
                       \<and> randint g (int n - lf) = Inr (start, g1)
                       \<and> (\<forall>i. start \<le> i \<and> i < start + nat lf \<longrightarrow> order ! i = i)))))"
proof (intro conjI impI)
  assume "0 < fr \<and> n = 0"
  then show "shuffle_sents fr mtl sents g = Inl ValueError"
    using shuffle_sents_no_sentence[of fr sents mtl g] assms(4) by simp
next
  assume c: "fr = 0 \<or> 0 < n"
  from shuffle_sents_returns[OF assms c, of g] obtain sh order g' where
    r: "shuffle_sents fr mtl sents g = Inr (sh, order, g')" by blast
  note R = shuffle_sents_Inr[OF r]
  have "0 < fr \<longrightarrow> (\<exists>lf start g1. py_int_mul n fr = Inr lf
           \<and> randint g (int n - lf) = Inr (start, g1)
           \<and> (\<forall>i. start \<le> i \<and> i < start + nat lf \<longrightarrow> order ! i = i))"
    using R(6) assms(4) by auto
  then show "\<exists>sh order g'. shuffle_sents fr mtl sents g = Inr (sh, order, g')
               \<and> length order = n \<and> distinct order \<and> set order = {0..<n}
               \<and> (0 < fr \<longrightarrow>
                    (\<exists>lf start g1. py_int_mul n fr = Inr lf
                       \<and> randint g (int n - lf) = Inr (start, g1)
                       \<and> (\<forall>i. start \<le> i \<and> i < start + nat lf \<longrightarrow> order ! i = i)))"
    using r R(1,2,3) assms(4) by blast
qed

theorem shuffle_sents_target_order_permutation_witness:
  "(0::rat) \<le> 1 / 2 \<and> (1 / 2 :: rat) < 1 \<and> float_round (1 / 2) = 1 / 2
   \<and> 4 = length (truncate_loop [[0, 7, 2], [0, 8, 2], [0, 9, 2], [0, 6, 2]] 100 [])
   \<and> (4::nat) < 2 ^ 53
   \<and> (\<exists>sh order g'. shuffle_sents (1 / 2) 100 [[0, 7, 2], [0, 8, 2], [0, 9, 2], [0, 6, 2]] [1, 1]
                       = Inr (sh, order, g')
         \<and> length order = 4 \<and> distinct order \<and> set order = {0..<4}
         \<and> (\<exists>start g1. py_int_mul 4 (1 / 2) = Inr 2 \<and> randint [1, 1] (int 4 - 2) = Inr (start, g1)
               \<and> order ! start = start \<and> order ! (start + 1) = start + 1))"
proof -
  have a: "(0::rat) \<le> 1 / 2" and b: "(1 / 2 :: rat) < 1" by simp_all
  have fl: "float_round (1 / 2) = 1 / 2" by (simp add: eval_float)
  have c: "4 = length (truncate_loop [[0, 7, 2], [0, 8, 2], [0, 9, 2], [0, 6, 2]] 100 [])" by simp
  have e: "(4::nat) < 2 ^ 53" by simp
  have d: "(1 / 2 :: rat) = 0 \<or> 0 < (4::nat)" by simp
  have p: "(0::rat) < 1 / 2" by simp
  have m: "py_int_mul 4 (1 / 2) = Inr 2" by (simp add: eval_float)
  from conjunct2[OF shuffle_sents_target_order_permutation[OF a b fl c e, of "[1, 1]"], THEN mp, OF d]
  obtain sh order g' where
    r: "shuffle_sents (1 / 2) 100 [[0, 7, 2], [0, 8, 2], [0, 9, 2], [0, 6, 2]] [1, 1] = Inr (sh, order, g')"
      "length order = 4" "distinct order" "set order = {0..<4}"
    and w: "0 < (1 / 2 :: rat) \<longrightarrow>
         (\<exists>lf start g1. py_int_mul 4 (1 / 2) = Inr lf \<and> randint [1, 1] (int 4 - lf) = Inr (start, g1)
             \<and> (\<forall>i. start \<le> i \<and> i < start + nat lf \<longrightarrow> order ! i = i))"
    by (elim exE conjE) (rule that)
  from w [rule_format, OF p] obtain lf start g1 where
    l: "py_int_mul 4 (1 / 2) = Inr lf" and ri: "randint [1, 1] (int 4 - lf) = Inr (start, g1)"
    and fx: "\<forall>i. start \<le> i \<and> i < start + nat lf \<longrightarrow> order ! i = i"
    by (elim exE conjE) (rule that)
  from l m have lf: "lf = 2" by simp
  have "order ! start = start" using fx lf by simp
  moreover have "order ! (start + 1) = start + 1" using fx lf by simp
  ultimately have "\<exists>start g1. py_int_mul 4 (1 / 2) = Inr 2 \<and> randint [1, 1] (int 4 - 2) = Inr (start, g1)
               \<and> order ! start = start \<and> order ! (start + 1) = start + 1"
    using m ri lf by blast
  then show ?thesis using a b fl c e r by blast
qed

text \<open>
  C7. Whenever the shuffler returns with \<open>fix_ratio \<noteq> 0\<close>, the window start it drew from
  \<^verbatim>\<open>rng.randint(n - len_fixed)\<close> is strictly below \<open>n - len_fixed\<close>: the offset
  \<open>n - len_fixed\<close> itself, at which the window would end with the last sentence, is drawn
  for no state of the generator. \<open>len_fixed\<close> is the value the code computes,
  \<^verbatim>\<open>int(n * fix_ratio)\<close> on the binary64 product.
\<close>

theorem shuffle_sents_start_below_last_offset:
  assumes "shuffle_sents fr mtl sents g = Inr (sh, order, g')" and "fr \<noteq> 0"
    and "n = length (truncate_loop sents mtl [])"
  shows "\<exists>len_fixed start g1. py_int_mul n fr = Inr len_fixed
           \<and> randint g (int n - len_fixed) = Inr (start, g1)
           \<and> int start < int n - len_fixed"
proof -
  from shuffle_sents_Inr(6)[OF assms(1,2)] obtain lf start g1 where
    l: "py_int_mul n fr = Inr lf" and r: "randint g (int n - lf) = Inr (start, g1)"
    unfolding assms(3) by blast
  then show ?thesis using randint_less[OF r] by blast
qed

theorem shuffle_sents_start_below_last_offset_witness:
  "shuffle_sents (1 / 2) 100 [[0, 7, 2], [0, 8, 2], [0, 9, 2]] [5, 0]
     = Inr ([Some [0, 9, 2], Some [0, 8, 2], Some [0, 7, 2]], [2, 1, 0], [])
   \<and> (1 / 2 :: rat) \<noteq> 0
   \<and> 3 = length (truncate_loop [[0, 7, 2], [0, 8, 2], [0, 9, 2]] 100 [])
   \<and> py_int_mul 3 (1 / 2) = Inr 1
   \<and> (\<exists>start g1. randint [5, 0] (int 3 - 1) = Inr (start, g1) \<and> int start < int 3 - 1)"
proof -
  have m: "py_int_mul 3 (1 / 2) = Inr 1" by (simp add: eval_float)
  have a: "shuffle_sents (1 / 2) 100 [[0, 7, 2], [0, 8, 2], [0, 9, 2]] [5, 0]
     = Inr ([Some [0, 9, 2], Some [0, 8, 2], Some [0, 7, 2]], [2, 1, 0], [])"
    by (simp add: shuffle_sents_def eval_float randint_def np_delete_def np_get_def
        np_put_def shuffle_def)
  have b: "(1 / 2 :: rat) \<noteq> 0" by simp
  have c: "3 = length (truncate_loop [[0, 7, 2], [0, 8, 2], [0, 9, 2]] 100 [])" by simp
  from shuffle_sents_start_below_last_offset[OF a b c] obtain lf start g1 where
    l: "py_int_mul 3 (1 / 2) = Inr lf"
    and r: "randint [5, 0] (int 3 - lf) = Inr (start, g1)" "int start < int 3 - lf"
    by (elim exE conjE) (rule that)
  from l m have "lf = 1" by simp
  with r have "\<exists>start g1. randint [5, 0] (int 3 - 1) = Inr (start, g1) \<and> int start < int 3 - 1"
    by blast
  then show ?thesis using a b c m by blast
qed

subsection \<open>Construction and the empty batch\<close>

text \<open>
  C8, as the code has it. Construction asserts that the separator id differs from the
  unknown id and fails exactly when they are equal (for a model name of the separator
  table). The sentence-mask id is looked up and stored as it comes; no assertion reads it.
\<close>

theorem dataset_init_asserts_separator:
  assumes "sent_sep_dic bm = Some sep"
  shows "(index sd sep = unk_index sd \<longrightarrow>
            dataset_init sd td pn msl mdl msp mpd sp mos mtl fr bm = Inl AssertionError)
       \<and> (index sd sep \<noteq> unk_index sd \<longrightarrow>
            (\<exists>ds. dataset_init sd td pn msl mdl msp mpd sp mos mtl fr bm = Inr ds
                  \<and> sent_sep_idx ds = index sd sep
                  \<and> sent_mask_idx ds = index sd SENT_MASK))"
  using assms by (simp add: dataset_init_def)

theorem dataset_init_asserts_separator_witness:
  "sent_sep_dic ''roberta-base'' = Some ''</s>''
   \<and> index example_dict ''</s>'' \<noteq> unk_index example_dict
   \<and> (\<exists>ds. dataset_init example_dict example_dict True (Some 10) (Some 5) (Some (5 / 8))
               (Some 5) 1 False 100 0 ''roberta-base'' = Inr ds
             \<and> sent_sep_idx ds = index example_dict ''</s>''
             \<and> sent_mask_idx ds = index example_dict SENT_MASK)"
proof -
  have h: "sent_sep_dic ''roberta-base'' = Some ''</s>''" by (simp add: sent_sep_dic_def)
  have n: "index example_dict ''</s>'' \<noteq> unk_index example_dict" by (simp add: example_dict_def)
  show ?thesis
    using dataset_init_asserts_separator[OF h, of example_dict example_dict True "Some 10" "Some 5"
        "Some (5 / 8)" "Some 5" 1 False 100 0] h n by blast
qed

text \<open>
  With a dictionary that lacks the sentence-mask symbol the mask id is the unknown id, and
  construction succeeds.
\<close>

theorem dataset_init_mask_unchecked:
  "index unmasked_dict SENT_MASK = unk_index unmasked_dict
   \<and> dataset_init unmasked_dict unmasked_dict True (Some 10) (Some 5) (Some (5 / 8))
        (Some 5) 1 False 100 0 ''roberta-base''
      = Inr (example_dataset\<lparr> src_dict := unmasked_dict, tgt_dict := unmasked_dict,
                              sent_mask_idx := 3 \<rparr>)"
  by (simp add: dataset_init_def unmasked_dict_def example_dataset_def sent_sep_dic_def SENT_MASK_def)

text \<open>
  C10. On the empty list of samples \<open>collate\<close> (and \<open>collater\<close>, which calls it) returns
  the empty dictionary: no error, no tensor among the results, and the generator it was
  given is the generator it hands back.
\<close>

theorem collate_empty_batch:
  "collate ds [] src_dict' tgt_dict' is_poniter_net' max_doc_len' g = Inr ([], g)
   \<and> collater ds [] g = Inr ([], g)"
  by (simp add: collate_def collater_def)

subsection \<open>The masking path: shuffle_sents_fixed\<close>

lemma map_via_nth: "map f xs = map (\<lambda>i. f (xs ! i)) [0..<length xs]"
  by (rule nth_equalityI) auto

lemma map_nth_take: "n \<le> length xs \<Longrightarrow> map (\<lambda>i. xs ! i) [0..<n] = take n xs"
  by (rule nth_equalityI) auto

lemma place_loop_mset:
  assumes pl: "place_loop (enumerate 0 order) sents (replicate n None) = Inr sh"
    and d: "distinct order" and so: "set order = {0..<n}" and ns: "n \<le> length sents"
  shows "length sh = n" and "\<forall>idx < n. sh ! (order ! idx) = Some (sents ! idx)"
    and "\<forall>p < n. \<exists>s. sh ! p = Some s"
    and "mset (map the sh) = mset (take n sents)"
proof -
  have lo: "length order = n" using d so by (metis card_atLeastLessThan diff_zero distinct_card)
  have b: "\<forall>p \<in> set order. p < length (replicate n (None :: 'a option))" using so by auto
  have l: "0 + length order \<le> length sents" using lo ns by simp
  from place_loop_enum[OF b l d] pl lo
  show len: "length sh = n" and nth: "\<forall>idx < n. sh ! (order ! idx) = Some (sents ! idx)" by auto
  show "\<forall>p < n. \<exists>s. sh ! p = Some s"
  proof (intro allI impI)
    fix p assume "p < n"
    then have "p \<in> set order" using so by simp
    then obtain idx where "idx < length order" "order ! idx = p" by (metis in_set_conv_nth)
    then show "\<exists>s. sh ! p = Some s" using nth lo by auto
  qed
  have mo: "mset order = mset [0..<n]"
    using d so by (metis distinct_upt set_eq_iff_mset_eq_distinct set_upt)
  have "map (\<lambda>p. the (sh ! p)) order = map (\<lambda>idx. the (sh ! (order ! idx))) [0..<n]"
    using lo map_via_nth[of "\<lambda>p. the (sh ! p)" order] by simp
  also have "\<dots> = map (\<lambda>idx. sents ! idx) [0..<n]" using nth by simp
  also have "\<dots> = take n sents" using ns by (rule map_nth_take)
  finally have e: "map (\<lambda>p. the (sh ! p)) order = take n sents" .
  have "mset (map the sh) = mset (map (\<lambda>p. the (sh ! p)) [0..<n])"
    using len map_via_nth[of the sh] by simp
  also have "\<dots> = image_mset (\<lambda>p. the (sh ! p)) (mset [0..<n])" by simp
  also have "\<dots> = image_mset (\<lambda>p. the (sh ! p)) (mset order)" using mo by simp
  also have "\<dots> = mset (map (\<lambda>p. the (sh ! p)) order)" by simp
  finally show "mset (map the sh) = mset (take n sents)" using e by simp
qed


lemma shuffle_sents_fixed_Inr:
  assumes r: "shuffle_sents_fixed mtl sents fixed sp g = Inr (out, g')"
  defines "n \<equiv> length (truncate_loop sents mtl [])"
  shows "length out = n" and "set fixed \<subseteq> {0..<n}"
    and "\<forall>k \<in> set fixed. out ! k = Some (sents ! k)"
    and "\<forall>p < n. \<exists>s. out ! p = Some s"
    and "mset (map the out) = mset (truncate_loop sents mtl [])"
proof -
  let ?S = "filter (\<lambda>k. k \<notin> set fixed) [0..<n]"
  have ns: "n \<le> length sents" unfolding n_def by (rule truncate_loop_length)
  have tk: "truncate_loop sents mtl [] = take n sents" unfolding n_def by (rule truncate_loop_take)
  have nb: "\<not> (\<exists>i \<in> set fixed. n \<le> i)"
  proof
    assume "\<exists>i \<in> set fixed. n \<le> i"
    then have "np_delete [0..<n] fixed = Inl IndexError" by (simp only: np_delete_upt if_True)
    then show False using r by (simp add: shuffle_sents_fixed_def Let_def n_def)
  qed
  then have nd: "np_delete [0..<n] fixed = Inr ?S" by (simp only: np_delete_upt if_False)
  show fb: "set fixed \<subseteq> {0..<n}" using nb by (rule bounded_subset)
  have gS: "np_get [0..<n] ?S = ?S" by (rule np_get_upt) auto
  obtain u g1 where u: "uniform g = (u, g1)" by (cases "uniform g")
  obtain perm g2 where s: "shuffle ?S g1 = (perm, g2)" by (cases "shuffle ?S g1")
  have mp: "mset perm = mset ?S" using shuffle_props(1)[OF s] .
  note P = fixed_shuffle_perm[OF fb mp]
  let ?order = "np_put [0..<n] ?S perm"
  have all: "length out = n \<and> (\<forall>k \<in> set fixed. out ! k = Some (sents ! k))
     \<and> (\<forall>p < n. \<exists>s. out ! p = Some s) \<and> mset (map the out) = mset (take n sents)"
  proof (cases "u < sp")
    case True
    from r have pl: "place_loop (enumerate 0 ?order) sents (replicate n None) = Inr out"
      using True by (simp add: shuffle_sents_fixed_def Let_def n_def[symmetric] nd u gS s
          split: if_splits sum.splits)
    note Q = place_loop_mset[OF pl P(4) P(3) ns]
    have "\<forall>k \<in> set fixed. out ! k = Some (sents ! k)"
    proof
      fix k assume k: "k \<in> set fixed"
      then have kn: "k < n" using fb by auto
      have "k \<notin> set ?S" using k by simp
      then have "?order ! k = [0..<n] ! k" by (rule np_put_other)
      then have "?order ! k = k" using kn by simp
      then show "out ! k = Some (sents ! k)" using Q(2) kn by metis
    qed
    then show ?thesis using Q by blast
  next
    case False
    from r have o: "out = map Some (take n sents)"
      using False by (simp add: shuffle_sents_fixed_def Let_def n_def[symmetric] nd u tk[symmetric])
    have "\<forall>k \<in> set fixed. out ! k = Some (sents ! k)" using fb ns o by auto
    moreover have "map the out = take n sents" using o by (simp add: comp_def)
    ultimately show ?thesis using o ns by auto
  qed
  then show "length out = n" "\<forall>k \<in> set fixed. out ! k = Some (sents ! k)"
    "\<forall>p < n. \<exists>s. out ! p = Some s" "mset (map the out) = mset (truncate_loop sents mtl [])"
    using tk by auto
qed

lemma draw_doc_index_less:
  "draw_doc_index k i n g = Inr (r, g') \<Longrightarrow> r < n"
proof (induction k arbitrary: g)
  case 0
  then show ?case
    using randint_less[of g "int n" r g']
    by (auto split: sum.splits if_splits)
next
  case (Suc k)
  from Suc.prems obtain r1 g1 where r1: "randint g (int n) = Inr (r1, g1)"
    by (auto split: sum.splits)
  have b: "r1 < n" using randint_less[OF r1] by simp
  show ?case
  proof (cases "r1 \<noteq> i")
    case True
    then show ?thesis using Suc.prems r1 b by simp
  next
    case False
    then have "draw_doc_index k i n g1 = Inr (r, g')" using Suc.prems r1 by simp
    then show ?thesis by (rule Suc.IH)
  qed
qed

lemma get_rnd_sent_mem:
  assumes "get_rnd_sent i docs g = Inr (s, g')"
  shows "\<exists>d \<in> set docs. s \<in> set d"
proof -
  from assms obtain r g1 where d: "draw_doc_index 9 i (length docs) g = Inr (r, g1)"
    by (auto simp: get_rnd_sent_def split: sum.splits)
  have rl: "r < length docs" using d by (rule draw_doc_index_less)
  from assms d obtain k g2 where k: "randint g1 (int (length (docs ! r))) = Inr (k, g2)"
    and s: "s = docs ! r ! k"
    by (auto simp: get_rnd_sent_def Let_def split: sum.splits)
  have "k < length (docs ! r)" using randint_less[OF k] by simp
  then show ?thesis using rl s by (metis nth_mem)
qed

lemma adjust_rnd_sent_shape:
  assumes r: "2 \<le> length rnd" "hd rnd = c" "last rnd = sent_sep_idx ds" and o: "2 \<le> ori_len"
  shows "length (adjust_rnd_sent ds ori_len rnd) = ori_len"
    and "hd (adjust_rnd_sent ds ori_len rnd) = c"
    and "last (adjust_rnd_sent ds ori_len rnd) = sent_sep_idx ds"
proof -
  obtain a b rest where rnd: "rnd = a # b # rest"
    using r(1) by (cases rnd; cases "tl rnd") auto
  have c: "a = c" using r(2) rnd by simp
  have pt: "py_take (int ori_len - 1) rnd = take (ori_len - 1) rnd"
    using o by (simp add: py_take_def nat_diff_distrib')
  obtain q where q: "ori_len - 1 = Suc q" using o by (cases "ori_len - 1") auto
  have hb: "hd (butlast rnd) = c" using rnd c by simp
  have bl: "butlast rnd \<noteq> []" using rnd by simp
  have ht: "hd (take (ori_len - 1) rnd) = c" "take (ori_len - 1) rnd \<noteq> []"
    using rnd c q by simp_all
  show "length (adjust_rnd_sent ds ori_len rnd) = ori_len"
    using r o by (auto simp: adjust_rnd_sent_def pt)
  show "hd (adjust_rnd_sent ds ori_len rnd) = c"
    using r(2) hb bl ht by (simp add: adjust_rnd_sent_def pt hd_append del: butlast.simps)
  show "last (adjust_rnd_sent ds ori_len rnd) = sent_sep_idx ds"
    using r by (auto simp: adjust_rnd_sent_def)
qed

lemma masked_sent_shape:
  assumes "2 \<le> n" and m_def: "m = (replicate n x)[0 := c]"
  shows "length (m[length m - 1 := e]) = n" and "hd (m[length m - 1 := e]) = c"
    and "last (m[length m - 1 := e]) = e"
proof -
  have l: "length m = n" by (simp add: m_def)
  show "length (m[length m - 1 := e]) = n" using l by simp
  have ne: "m[length m - 1 := e] \<noteq> []" using l assms(1) by auto
  have "(m[length m - 1 := e]) ! 0 = c" using assms(1) l by (simp add: m_def)
  then show "hd (m[length m - 1 := e]) = c" using ne by (simp add: hd_conv_nth)
  show "last (m[length m - 1 := e]) = e" using ne l assms(1) by (simp add: last_conv_nth)
qed

lemma corrupt_sent_Inr:
  assumes r: "corrupt_sent ds i docs doc k out0 g = Inr (out1, g1)"
    and wf: "\<forall>d \<in> set docs. \<forall>s \<in> set d. sent_ok (cls_index (src_dict ds)) (sent_sep_idx ds) s"
    and dd: "\<forall>s \<in> set doc. sent_ok (cls_index (src_dict ds)) (sent_sep_idx ds) s"
    and kd: "k < length doc"
    and pre: "out0 ! k = Some s0" "length s0 = length (doc ! k)"
  shows "\<exists>s. out1 = out0[k := Some s] \<and> k < length out0 \<and> length s = length (doc ! k)
           \<and> sent_ok (cls_index (src_dict ds)) (sent_sep_idx ds) s"
proof -
  let ?ok = "sent_ok (cls_index (src_dict ds)) (sent_sep_idx ds)"
  have dk: "?ok (doc ! k)" using dd kd by simp
  then have l2: "2 \<le> length (doc ! k)" by (simp add: sent_ok_def)
  obtain u ga where u: "uniform g = (u, ga)" by (cases "uniform g")
  obtain u2 gb where u2: "uniform ga = (u2, gb)" by (cases "uniform ga")
  show ?thesis
  proof (cases "u < 8 / 10")
    case True
    define m where "m = (replicate (length s0) (sent_mask_idx ds))[0 := cls_index (src_dict ds)]"
    have n2: "2 \<le> length s0" using l2 pre by simp
    then have ne: "replicate (length s0) (sent_mask_idx ds) \<noteq> []" by auto
    from r True u pre ne have ko: "k < length out0"
      and o: "out1 = out0[k := Some (m[length m - 1 := sent_sep_idx ds])]"
      by (auto simp: corrupt_sent_def Let_def m_def split: if_splits)
    note M = masked_sent_shape[OF n2 m_def, of "sent_sep_idx ds"]
    have "?ok (m[length m - 1 := sent_sep_idx ds])" using M n2 by (simp add: sent_ok_def)
    then show ?thesis using o ko M(1) pre by auto
  next
    case False
    show ?thesis
    proof (cases "u2 < 5 / 10")
      case True
      from r \<open>\<not> u < 8 / 10\<close> True u u2 have "k < length out0" "out1 = out0[k := Some (doc ! k)]"
        by (auto simp: corrupt_sent_def Let_def split: if_splits)
      then show ?thesis using dk by auto
    next
      case F2: False
      from r \<open>\<not> u < 8 / 10\<close> F2 u u2 obtain rnd g3 where
        g: "get_rnd_sent i docs gb = Inr (rnd, g3)"
        by (auto simp: corrupt_sent_def Let_def split: if_splits sum.splits)
      from r \<open>\<not> u < 8 / 10\<close> F2 u u2 g have ko: "k < length out0"
        and o: "out1 = out0[k := Some (adjust_rnd_sent ds (length (doc ! k)) rnd)]"
        by (auto simp: corrupt_sent_def Let_def split: if_splits)
      from get_rnd_sent_mem[OF g] wf have "?ok rnd" by blast
      then have rr: "2 \<le> length rnd" "hd rnd = cls_index (src_dict ds)" "last rnd = sent_sep_idx ds"
        by (simp_all add: sent_ok_def)
      note A = adjust_rnd_sent_shape[OF rr l2]
      have "?ok (adjust_rnd_sent ds (length (doc ! k)) rnd)" using A l2 by (simp add: sent_ok_def)
      then show ?thesis using o ko A(1) by auto
    qed
  qed
qed

lemma corrupt_loop_Inr:
  assumes r: "corrupt_loop ds i docs doc sel out0 ms0 g = Inr (out, ms, g')"
    and wf: "\<forall>d \<in> set docs. \<forall>s \<in> set d. sent_ok (cls_index (src_dict ds)) (sent_sep_idx ds) s"
    and dd: "\<forall>s \<in> set doc. sent_ok (cls_index (src_dict ds)) (sent_sep_idx ds) s"
    and pre: "\<forall>k \<in> set sel. \<exists>s. out0 ! k = Some s \<and> length s = length (doc ! k)"
  shows "length out = length out0
       \<and> (\<forall>k \<in> set sel. k < length doc \<and> k < length out
             \<and> (\<exists>s. out ! k = Some s \<and> length s = length (doc ! k)
                    \<and> sent_ok (cls_index (src_dict ds)) (sent_sep_idx ds) s))
       \<and> (\<forall>k. k \<notin> set sel \<longrightarrow> out ! k = out0 ! k)
       \<and> ms = ms0 @ map (\<lambda>k. doc ! k) sel"
  using r pre
proof (induction sel arbitrary: out0 ms0 g)
  case Nil
  then show ?case by simp
next
  case (Cons k sel)
  let ?ok = "sent_ok (cls_index (src_dict ds)) (sent_sep_idx ds)"
  from Cons.prems(1) obtain out1 g1 where
    c: "corrupt_sent ds i docs doc k out0 g = Inr (out1, g1)"
    by (auto split: sum.splits)
  from Cons.prems(1) c have kd: "k < length doc"
    and rest: "corrupt_loop ds i docs doc sel out1 (ms0 @ [doc ! k]) g1 = Inr (out, ms, g')"
    by (auto split: if_splits)
  from Cons.prems(2) obtain s0 where s0: "out0 ! k = Some s0" "length s0 = length (doc ! k)" by auto
  from corrupt_sent_Inr[OF c wf dd kd s0] obtain s where
    s: "out1 = out0[k := Some s]" "k < length out0" "length s = length (doc ! k)" "?ok s" by blast
  have pre1: "\<forall>j \<in> set sel. \<exists>t. out1 ! j = Some t \<and> length t = length (doc ! j)"
  proof
    fix j assume j: "j \<in> set sel"
    show "\<exists>t. out1 ! j = Some t \<and> length t = length (doc ! j)"
    proof (cases "j = k")
      case True
      then show ?thesis using s by simp
    next
      case False
      then show ?thesis using s(1) Cons.prems(2) j by simp
    qed
  qed
  note IH = Cons.IH[OF rest pre1]
  have len: "length out = length out0" using IH s(1) by simp
  have k_ok: "k < length out \<and> (\<exists>t. out ! k = Some t \<and> length t = length (doc ! k) \<and> ?ok t)"
  proof (cases "k \<in> set sel")
    case True
    then show ?thesis using IH by blast
  next
    case False
    then have "out ! k = out1 ! k" using IH by blast
    then show ?thesis using s len by simp
  qed
  have other: "\<forall>j. j \<notin> set (k # sel) \<longrightarrow> out ! j = out0 ! j"
  proof (intro allI impI)
    fix j assume j: "j \<notin> set (k # sel)"
    then have "out ! j = out1 ! j" using IH by simp
    then show "out ! j = out0 ! j" using s(1) j by simp
  qed
  show ?case using len k_ok kd IH other by auto
qed

lemma mask_sentences_Inr:
  assumes r: "mask_sentences ds i docs p m vocab g = Inr (out, sel, ms, g')"
  shows "\<exists>t num_pred candi g1 out0 g2. i < length docs
           \<and> py_int_mul (length (docs ! i)) p = Inr t
           \<and> num_pred = min (max (min_predictions_per_doc ds) t) m
           \<and> shuffle [0..<length (docs ! i)] g = (candi, g1)
           \<and> sel = sort (py_take num_pred candi)
           \<and> shuffle_sents_fixed (max_tokens_len ds) (docs ! i) (py_take num_pred candi)
                (shuffle_prob ds) g1 = Inr (out0, g2)
           \<and> corrupt_loop ds i docs (docs ! i) sel out0 [] g2 = Inr (out, ms, g')"
proof -
  obtain candi g1 where c: "shuffle [0..<length (docs ! i)] g = (candi, g1)"
    by (cases "shuffle [0..<length (docs ! i)] g")
  have lc: "length candi = length (docs ! i)" using shuffle_props(2)[OF c] by simp
  from r have il: "i < length docs" by (auto simp: mask_sentences_def split: if_splits)
  from r il c lc obtain t where t: "py_int_mul (length (docs ! i)) p = Inr t"
    by (auto simp: mask_sentences_def Let_def split: if_splits sum.splits)
  define num_pred where "num_pred = min (max (min_predictions_per_doc ds) t) m"
  from r il c lc t num_pred_def obtain out0 g2 where
    f: "shuffle_sents_fixed (max_tokens_len ds) (docs ! i) (py_take num_pred candi)
          (shuffle_prob ds) g1 = Inr (out0, g2)"
    by (auto simp: mask_sentences_def Let_def split: if_splits sum.splits)
  from r il c lc t num_pred_def f have "sel = sort (py_take num_pred candi)"
    and "corrupt_loop ds i docs (docs ! i) (sort (py_take num_pred candi)) out0 [] g2 = Inr (out, ms, g')"
    by (auto simp: mask_sentences_def Let_def split: if_splits sum.splits)
  then show ?thesis using il c f t num_pred_def by blast
qed

lemma py_take_props:
  "set (py_take k xs) \<subseteq> set xs" "distinct xs \<Longrightarrow> distinct (py_take k xs)"
  "0 \<le> k \<Longrightarrow> int (length (py_take k xs)) = min (int (length xs)) k"
  by (auto simp: py_take_def dest: in_set_takeD)

subsection \<open>The sentence masker\<close>

text \<open>
  C3, as the code has it. \<open>t\<close> is \<^verbatim>\<open>int(len(doc) * masked_sent_prob)\<close>: the binary64
  product truncated by \<^verbatim>\<open>int\<close> (for a non-negative probability, the floor of the float
  product; it is not rounded to the nearest integer). \<open>num_pred\<close> is the count the masker
  computes from it, \<^verbatim>\<open>min(max(min_predictions_per_doc, t), max_predictions_per_doc)\<close>.
  The selected positions are the first \<open>num_pred\<close> shuffled candidates, so there are
  \<open>min(len(doc), num_pred)\<close> of them; they are positions of the document, strictly
  increasing, hence without duplicates. Their number is at most \<open>max_predictions_per_doc\<close>,
  and at least \<open>min_predictions_per_doc\<close> when that minimum exceeds neither the number of
  sentences nor the maximum.
\<close>

theorem mask_sentences_selected_count:
  assumes "mask_sentences ds i docs p m vocab g = Inr (out, sel, ms, g')"
    and "py_int_mul (length (docs ! i)) p = Inr t"
    and "num_pred = min (max (min_predictions_per_doc ds) t) m"
    and "0 \<le> num_pred"
  shows "int (length sel) = min (int (length (docs ! i))) num_pred
       \<and> sorted_wrt (<) sel \<and> set sel \<subseteq> {0..<length (docs ! i)}
       \<and> t = py_int (float_round (float_round (of_nat (length (docs ! i))) * p))
       \<and> (0 \<le> p \<longrightarrow> t = \<lfloor>float_round (float_round (of_nat (length (docs ! i))) * p)\<rfloor>)
       \<and> int (length sel) \<le> m
       \<and> (min_predictions_per_doc ds \<le> int (length (docs ! i)) \<and> min_predictions_per_doc ds \<le> m
            \<longrightarrow> min_predictions_per_doc ds \<le> int (length sel))"
proof -
  from mask_sentences_Inr[OF assms(1)] assms(2,3) obtain candi g1 where
    c: "shuffle [0..<length (docs ! i)] g = (candi, g1)" and s: "sel = sort (py_take num_pred candi)"
    by auto
  note C = shuffle_props[OF c]
  have dc: "distinct candi" using C(4) by simp
  have sc: "set candi = {0..<length (docs ! i)}" using C(3) by simp
  have lc: "length candi = length (docs ! i)" using C(2) by simp
  have l: "int (length sel) = min (int (length (docs ! i))) num_pred"
    using py_take_props(3)[OF assms(4), of candi] lc s by simp
  have d: "distinct sel" using py_take_props(2)[OF dc, of num_pred] s by simp
  have st: "sorted_wrt (<) sel" using d s by (simp add: strict_sorted_iff)
  have sb: "set sel \<subseteq> {0..<length (docs ! i)}" using py_take_props(1)[of num_pred candi] sc s by simp
  let ?y = "float_round (float_round (of_nat (length (docs ! i))) * p)"
  have t: "t = py_int ?y"
    using assms(2) by (simp add: py_int_mul_def Let_def split: if_splits)
  have fl: "0 \<le> p \<longrightarrow> t = \<lfloor>?y\<rfloor>"
  proof
    assume "0 \<le> p"
    then have "0 \<le> float_round (of_nat (length (docs ! i))) * p"
      by (intro mult_nonneg_nonneg float_round_nonneg) simp_all
    then have "0 \<le> ?y" by (rule float_round_nonneg)
    then show "t = \<lfloor>?y\<rfloor>" using t by (simp add: py_int_floor)
  qed
  show ?thesis using l st sb t fl assms(3) by auto
qed

lemmas eval_rng = randint_def uniform_def shuffle_def Let_def

lemmas eval_mask = mask_sentences_def shuffle_sents_fixed_def corrupt_sent_def get_rnd_sent_def
  adjust_rnd_sent_def np_delete_def np_get_def np_put_def eval_float py_take_def
  example_dataset_def example_dict_def

lemma mask_sentences_run_mask:
  "mask_sentences example_dataset 0 [[[0, 7, 2], [0, 8, 9, 2], [0, 5, 2]]] (5 / 8) 5 example_dict []
     = Inr ([Some [0, 5, 2], Some [0, 50, 50, 2], Some [0, 7, 2]], [1], [[0, 8, 9, 2]], [])"
  by (simp add: eval_mask eval_rng)

lemma mask_sentences_run_replace:
  "mask_sentences example_dataset 0
     [[[0, 7, 2], [0, 8, 9, 2], [0, 5, 2]], [[0, 4, 4, 4, 4, 4, 2]]] (5 / 8) 5 example_dict
     [0, 0, 0, 0, 2 ^ 53 - 1, 2 ^ 53 - 1, 1, 0]
     = Inr ([Some [0, 5, 2], Some [0, 4, 4, 2], Some [0, 7, 2]], [1], [[0, 8, 9, 2]], [])"
  by (simp add: eval_mask eval_rng)

lemma mask_sentences_run_keep:
  "mask_sentences example_dataset 0 [[[0, 7, 2], [0, 8, 9, 2], [0, 5, 2]]] (5 / 8) 5 example_dict
     [0, 0, 0, 0, 2 ^ 53 - 1, 0, 0]
     = Inr ([Some [0, 5, 2], Some [0, 8, 9, 2], Some [0, 7, 2]], [1], [[0, 8, 9, 2]], [0])"
  by (simp add: eval_mask eval_rng)

theorem mask_sentences_selected_count_witness:
  "mask_sentences example_dataset 0 [[[0, 7, 2], [0, 8, 9, 2], [0, 5, 2]]] (5 / 8) 5 example_dict []
     = Inr ([Some [0, 5, 2], Some [0, 50, 50, 2], Some [0, 7, 2]], [1], [[0, 8, 9, 2]], [])
   \<and> py_int_mul (length ([[[0::int, 7, 2], [0, 8, 9, 2], [0, 5, 2]]] ! 0)) (5 / 8) = Inr 1
   \<and> (1::int) = min (max (min_predictions_per_doc example_dataset) 1) 5
   \<and> int (length [1::nat]) = min (int (length ([[[0::int, 7, 2], [0, 8, 9, 2], [0, 5, 2]]] ! 0))) 1
   \<and> sorted_wrt (<) [1::nat]
   \<and> (1::int) = py_int (float_round (float_round
                     (of_nat (length ([[[0::int, 7, 2], [0, 8, 9, 2], [0, 5, 2]]] ! 0))) * (5 / 8)))
   \<and> int (length [1::nat]) \<le> 5"
proof -
  have t: "py_int_mul (length ([[[0::int, 7, 2], [0, 8, 9, 2], [0, 5, 2]]] ! 0)) (5 / 8) = Inr 1"
    by (simp add: eval_float)
  have n: "(1::int) = min (max (min_predictions_per_doc example_dataset) 1) 5"
    by (simp add: example_dataset_def)
  have z: "(0::int) \<le> 1" by simp
  show ?thesis
    using mask_sentences_selected_count[OF mask_sentences_run_mask t n z] mask_sentences_run_mask t n
    by blast
qed

text \<open>
  A document of three sentences with \<open>masked_sent_prob = 0.625\<close>, minimum 1 and maximum 5:
  the binary64 product is 1.875, the masker selects one position, and the clamp of the
  rounded product is 2.
\<close>

theorem mask_sentences_truncates_not_rounds:
  "mask_sentences example_dataset 0 [[[0, 7, 2], [0, 8, 9, 2], [0, 5, 2]]] (5 / 8) 5 example_dict []
     = Inr ([Some [0, 5, 2], Some [0, 50, 50, 2], Some [0, 7, 2]], [1], [[0, 8, 9, 2]], [])
   \<and> float_round (5 / 8) = 5 / 8
   \<and> float_round (float_round (of_nat (length ([[[0::int, 7, 2], [0, 8, 9, 2], [0, 5, 2]]] ! 0)))
                     * (5 / 8)) = 15 / 8
   \<and> int (length [1::nat])
       \<noteq> min (max (min_predictions_per_doc example_dataset) (round (15 / 8 :: rat))) 5"
proof (intro conjI)
  show "mask_sentences example_dataset 0 [[[0, 7, 2], [0, 8, 9, 2], [0, 5, 2]]] (5 / 8) 5 example_dict []
     = Inr ([Some [0, 5, 2], Some [0, 50, 50, 2], Some [0, 7, 2]], [1], [[0, 8, 9, 2]], [])"
    by (rule mask_sentences_run_mask)
  show "float_round (5 / 8) = 5 / 8" by (simp add: eval_float)
  show "float_round (float_round (of_nat (length ([[[0::int, 7, 2], [0, 8, 9, 2], [0, 5, 2]]] ! 0)))
                       * (5 / 8)) = 15 / 8"
    by (simp add: eval_float)
  show "int (length [1::nat])
       \<noteq> min (max (min_predictions_per_doc example_dataset) (round (15 / 8 :: rat))) 5"
    by (simp add: example_dataset_def round_def floor_rat_numeral_div)
qed

text \<open>
  C4. Let the documents of the pool be well formed (every sentence starts with the class
  id, ends with the separator id and has at least these two tokens, as every document built
  by \<open>get_docs\<close> is: lemma \<open>get_docs_well_formed\<close>). Whenever \<open>mask_sentences\<close> returns, for every generator, hence for
  every outcome of the draws that choose among masking, keeping and replacing, the sentence
  left at each selected position has the length of the original sentence at that position,
  starts with the class id and ends with the separator id.
\<close>

theorem mask_sentences_corrupted_shape:
  assumes "mask_sentences ds i docs p m vocab g = Inr (out, sel, ms, g')"
    and "\<forall>d \<in> set docs. \<forall>s \<in> set d. sent_ok (cls_index (src_dict ds)) (sent_sep_idx ds) s"
    and "k \<in> set sel"
  shows "k < length (docs ! i)
       \<and> (\<exists>s. out ! k = Some s \<and> length s = length (docs ! i ! k)
              \<and> hd s = cls_index (src_dict ds) \<and> last s = sent_sep_idx ds)"
proof -
  from mask_sentences_Inr[OF assms(1)] obtain candi g1 out0 g2 num_pred where
    il: "i < length docs"
    and s: "sel = sort (py_take num_pred candi)"
    and f: "shuffle_sents_fixed (max_tokens_len ds) (docs ! i) (py_take num_pred candi)
              (shuffle_prob ds) g1 = Inr (out0, g2)"
    and c: "corrupt_loop ds i docs (docs ! i) sel out0 [] g2 = Inr (out, ms, g')"
    by blast
  have dd: "\<forall>s \<in> set (docs ! i). sent_ok (cls_index (src_dict ds)) (sent_sep_idx ds) s"
    using assms(2) nth_mem[OF il] by blast
  have pre: "\<forall>k \<in> set sel. \<exists>s. out0 ! k = Some s \<and> length s = length (docs ! i ! k)"
    using shuffle_sents_fixed_Inr(3)[OF f] s by simp
  from corrupt_loop_Inr[OF c assms(2) dd pre] assms(3)
  show ?thesis by (auto simp: sent_ok_def)
qed

theorem mask_sentences_corrupted_shape_witness:
  "mask_sentences example_dataset 0
     [[[0, 7, 2], [0, 8, 9, 2], [0, 5, 2]], [[0, 4, 4, 4, 4, 4, 2]]] (5 / 8) 5 example_dict
     [0, 0, 0, 0, 2 ^ 53 - 1, 2 ^ 53 - 1, 1, 0]
     = Inr ([Some [0, 5, 2], Some [0, 4, 4, 2], Some [0, 7, 2]], [1], [[0, 8, 9, 2]], [])
   \<and> (\<exists>s. [Some [0, 5, 2], Some [0, 4, 4, 2], Some [0, 7, 2]] ! 1 = Some s
          \<and> length s = length ([[[0::int, 7, 2], [0, 8, 9, 2], [0, 5, 2]], [[0, 4, 4, 4, 4, 4, 2]]] ! 0 ! 1)
          \<and> hd s = cls_index (src_dict example_dataset)
          \<and> last s = sent_sep_idx example_dataset)"
proof -
  have wf: "\<forall>d \<in> set [[[0, 7, 2], [0, 8, 9, 2], [0, 5, 2]], [[0, 4, 4, 4, 4, 4, 2]]].
              \<forall>s \<in> set d. sent_ok (cls_index (src_dict example_dataset))
                                     (sent_sep_idx example_dataset) s"
    by (simp add: sent_ok_def example_dataset_def example_dict_def)
  have k: "(1::nat) \<in> set [1]" by simp
  show ?thesis
    using mask_sentences_corrupted_shape[OF mask_sentences_run_replace wf k]
      mask_sentences_run_replace by blast
qed

subsection \<open>Masked-target tensors\<close>











subsection \<open>The batch tensorizer\<close>

lemma max_dims_bounds:
  "max_dims docs a b = (m, n) \<Longrightarrow>
   a \<le> m \<and> b \<le> n \<and> (\<forall>item \<in> set docs. length (fst item) \<le> m \<and> length (snd item) \<le> n)"
proof (induction docs arbitrary: a b)
  case Nil
  then show ?case by simp
next
  case (Cons item docs)
  obtain doc cls_pos where i: "item = (doc, cls_pos)" by (cases item)
  from Cons.prems i have "max_dims docs (max (length doc) a) (max b (length cls_pos)) = (m, n)"
    by simp
  from Cons.IH[OF this] show ?case using i by auto
qed



















lemma truncate_loop_subset: "set (truncate_loop sents b []) \<subseteq> set sents"
  using truncate_loop_take[of sents b] by (metis set_take_subset)






subsection \<open>The two views of a batch\<close>

lemma get_docs_loop_truncate:
  "get_docs_loop sents sep b doc cls acc = Inr (acc', cls') \<Longrightarrow>
   length doc = sum_list (map length acc) \<Longrightarrow> acc' = truncate_loop sents b acc"
proof (induction sents arbitrary: doc cls acc)
  case Nil
  then show ?case by simp
next
  case (Cons s sents)
  show ?case
  proof (cases "int (length doc + length s) \<le> b")
    case True
    from Cons.prems(1) True have
      r: "get_docs_loop sents sep b (doc @ s) (cls @ [length doc]) (acc @ [s]) = Inr (acc', cls')"
      by (auto split: if_splits)
    have l: "length (doc @ s) = sum_list (map length (acc @ [s]))" using Cons.prems(2) by simp
    show ?thesis using Cons.IH[OF r l] True Cons.prems(2) by simp
  next
    case False
    then show ?thesis using Cons.prems by (auto split: if_splits)
  qed
qed
























subsection \<open>Documents built by get_docs are well formed\<close>

lemma split_list_nonempty: "\<forall>s \<in> set (split_list lst key). s \<noteq> []"
proof (rule split_list_cases[of lst key])
  fix r s
  assume "\<forall>x \<in> set r. x \<noteq> [] \<and> last x = key \<and> key \<notin> set (butlast x)"
    and "split_list lst key = (if s = [] then r else r @ [s])"
  then show ?thesis by auto
qed

lemma cap_sent_nonempty: "sent \<noteq> [] \<Longrightarrow> cap_sent l sep sent \<noteq> []"
  by (simp add: cap_sent_def)

lemma prepare_sents_two:
  assumes "\<forall>x \<in> set xs. x \<noteq> []"
  shows "\<forall>s \<in> set (prepare_sents sep c xs). 2 \<le> length s \<and> hd s = c"
proof (cases "xs = []")
  case True
  then show ?thesis by (simp add: prepare_sents_def)
next
  case False
  let ?ys = "map (\<lambda>sent. c # sent) xs"
  have a: "\<forall>s \<in> set ?ys. 2 \<le> length s \<and> hd s = c"
    using assms by (auto simp: Suc_le_eq)
  have ne: "?ys \<noteq> []" using False by simp
  have l: "2 \<le> length (last ?ys) \<and> hd (last ?ys) = c" using a ne last_in_set by blast
  have b: "\<forall>s \<in> set (butlast ?ys). 2 \<le> length s \<and> hd s = c"
    using a by (meson in_set_butlastD)
  have "\<forall>s \<in> set (close_last sep ?ys). 2 \<le> length s \<and> hd s = c"
    unfolding close_last_def using a b l by (cases "last ?ys") auto
  then show ?thesis using False by (simp add: prepare_sents_def Let_def)
qed

lemma get_docs_sents_two:
  "\<forall>s \<in> set (get_docs_sents msl mdl sep c smp). 2 \<le> length s \<and> hd s = c"
proof -
  let ?s = "split_list (source smp) sep"
  have t: "\<And>k. \<forall>x \<in> set (py_take k ?s). x \<noteq> []"
    using split_list_nonempty[of "source smp" sep] py_take_props(1)[of _ ?s] by blast
  have 1: "\<forall>x \<in> set (case mdl of None \<Rightarrow> ?s | Some m \<Rightarrow> py_take m ?s). x \<noteq> []"
    using split_list_nonempty[of "source smp" sep] t by (cases mdl) auto
  have 2: "\<forall>x \<in> set (case msl of None \<Rightarrow> (case mdl of None \<Rightarrow> ?s | Some m \<Rightarrow> py_take m ?s)
                         | Some l \<Rightarrow> map (cap_sent l sep)
                                      (case mdl of None \<Rightarrow> ?s | Some m \<Rightarrow> py_take m ?s)). x \<noteq> []"
    using 1 by (cases msl) (auto simp: cap_sent_nonempty)
  show ?thesis unfolding get_docs_sents_def Let_def by (rule prepare_sents_two[OF 2])
qed

lemma get_docs_loop_last:
  "get_docs_loop sents sep b doc cls acc = Inr (acc', cls') \<Longrightarrow>
   \<forall>s \<in> set acc. last s = sep \<Longrightarrow> \<forall>s \<in> set acc'. last s = sep"
proof (induction sents arbitrary: doc cls acc)
  case Nil
  then show ?case by simp
next
  case (Cons s sents)
  show ?case
  proof (cases "int (length doc + length s) \<le> b")
    case True
    from Cons.prems(1) True have ls: "last s = sep"
      and r: "get_docs_loop sents sep b (doc @ s) (cls @ [length doc]) (acc @ [s]) = Inr (acc', cls')"
      by (auto split: if_splits)
    have "\<forall>x \<in> set (acc @ [s]). last x = sep" using Cons.prems(2) ls by simp
    from Cons.IH[OF r this] show ?thesis .
  next
    case False
    then show ?thesis using Cons.prems by (auto split: if_splits)
  qed
qed

lemma get_docs_samples_well_formed:
  assumes "get_docs_samples msl mdl mtl sep c samples docs0 cls0 = Inr (docs, cls_poses)"
    and "\<forall>d \<in> set docs0. \<forall>s \<in> set d. sent_ok c sep s"
  shows "\<forall>d \<in> set docs. \<forall>s \<in> set d. sent_ok c sep s"
  using assms
proof (induction samples arbitrary: docs0 cls0)
  case Nil
  then show ?case by simp
next
  case (Cons smp samples)
  let ?s = "get_docs_sents msl mdl sep c smp"
  show ?case
  proof (cases "?s = []")
    case True
    then have "get_docs_sample msl mdl mtl sep c smp = Inr None" by (simp add: get_docs_sample_def)
    then have "get_docs_samples msl mdl mtl sep c samples docs0 cls0 = Inr (docs, cls_poses)"
      using Cons.prems(1) by simp
    from Cons.IH[OF this Cons.prems(2)] show ?thesis .
  next
    case False
    from Cons.prems(1) False obtain doc cls_pos where
      l: "get_docs_loop ?s sep mtl [] [] [] = Inr (doc, cls_pos)"
      and g: "get_docs_sample msl mdl mtl sep c smp = Inr (Some (doc, cls_pos))"
      by (auto simp: get_docs_sample_def Let_def split: sum.splits)
    have d: "doc = truncate_loop ?s mtl []" using get_docs_loop_truncate[OF l] by simp
    have la: "\<forall>s \<in> set doc. last s = sep" using get_docs_loop_last[OF l] by simp
    have "\<forall>s \<in> set doc. 2 \<le> length s \<and> hd s = c"
      unfolding d using truncate_loop_subset get_docs_sents_two by blast
    then have ok: "\<forall>s \<in> set doc. sent_ok c sep s" using la by (simp add: sent_ok_def)
    have r: "get_docs_samples msl mdl mtl sep c samples (docs0 @ [doc]) (cls0 @ [cls_pos])
            = Inr (docs, cls_poses)" using Cons.prems(1) g by simp
    have "\<forall>d \<in> set (docs0 @ [doc]). \<forall>s \<in> set d. sent_ok c sep s" using Cons.prems(2) ok by simp
    from Cons.IH[OF r this] show ?thesis .
  qed
qed

lemma get_docs_well_formed:
  assumes "get_docs samples vocab maxlen mdl mtl bm = Inr (docs, cls_poses)"
    and "sent_sep_dic bm = Some sep"
  shows "\<forall>d \<in> set docs. \<forall>s \<in> set d. sent_ok (cls_index vocab) (index vocab sep) s"
proof -
  from assms have "get_docs_samples maxlen mdl mtl (index vocab sep) (cls_index vocab) samples [] []
                     = Inr (docs, cls_poses)"
    by (auto simp: get_docs_def Let_def split: if_splits)
  from get_docs_samples_well_formed[OF this] show ?thesis by simp
qed

end
